theory Spec2Isabelle
  imports Complex_Main
begin

section \<open>Strings and regular expressions of the sequencer\<close>

text \<open>
  JavaScript strings are modelled as lists of 8-bit characters (code units below 256).
  Numbers are modelled exactly: the integers read by \<open>parseInt\<close> as natural numbers
  and the results of floating-point expressions as real numbers, so rounding of IEEE
  doubles is not part of the model.
\<close>

definition isDigit :: "char \<Rightarrow> bool" where
  \<comment> \<open>the regular expression class \<open>\d\<close>\<close>
  "isDigit c = (c \<in> set ''0123456789'')"

definition isNoteLetter :: "char \<Rightarrow> bool" where
  \<comment> \<open>\<open>[a-g]\<close> under the flag \<open>i\<close>\<close>
  "isNoteLetter c = (c \<in> set ''abcdefgABCDEFG'')"

definition isAccidental :: "char \<Rightarrow> bool" where
  \<comment> \<open>\<open>[#b]\<close> under the flag \<open>i\<close>\<close>
  "isAccidental c = (c \<in> set ''#bB'')"

definition isLineTerminator :: "char \<Rightarrow> bool" where
  \<comment> \<open>what the regular expression \<open>.\<close> does not match: line feed and carriage return
     (U+2028 and U+2029 are not 8-bit characters)\<close>
  "isLineTerminator c = (c = CHR 0x0A \<or> c = CHR 0x0D)"

definition isSpace :: "char \<Rightarrow> bool" where
  \<comment> \<open>the class \<open>\s\<close> and what \<open>trim\<close> strips: tab, line feed, vertical tab, form feed,
     carriage return, space and the no-break space U+00A0\<close>
  "isSpace c = (c \<in> set [CHR 0x09, CHR 0x0A, CHR 0x0B, CHR 0x0C, CHR 0x0D, CHR 0x20, CHR 0xA0])"

definition toLowerCase_char :: "char \<Rightarrow> char" where
  "toLowerCase_char c =
     (case map_of (zip ''ABCDEFGHIJKLMNOPQRSTUVWXYZ'' ''abcdefghijklmnopqrstuvwxyz'') c of
        Some d \<Rightarrow> d
      | None \<Rightarrow> c)"

definition toLowerCase :: "string \<Rightarrow> string" where
  \<comment> \<open>\<open>String.prototype.toLowerCase\<close> on the letters A to Z; the sequencer applies it
     to texts matched by \<open>[a-g][#b]?\d\<close> only\<close>
  "toLowerCase s = map toLowerCase_char s"

definition digitValue :: "char \<Rightarrow> nat" where
  "digitValue c = of_char c - 48"

definition parseInt :: "string \<Rightarrow> nat" where
  \<comment> \<open>\<open>parseInt(s, 10)\<close> on a string of decimal digits\<close>
  "parseInt s = foldl (\<lambda>n c. 10 * n + digitValue c) 0 s"

definition trim :: "string \<Rightarrow> string" where
  "trim s = rev (dropWhile isSpace (rev (dropWhile isSpace s)))"

fun split_on :: "char \<Rightarrow> string \<Rightarrow> string list" where
  \<comment> \<open>\<open>s.split(c)\<close> for a one-character separator: the empty string gives one empty piece\<close>
  "split_on c [] = [[]]"
| "split_on c (x # xs) =
     (if x = c then [] # split_on c xs
      else (case split_on c xs of
              p # ps \<Rightarrow> (x # p) # ps
            | [] \<Rightarrow> [[x]]))"

section \<open>Data model of a parsed pattern\<close>

record slide_target =
  to_noteName :: string
  to_frequency :: real
  to_velocity :: nat

record note_event =
  noteName :: string
  frequency :: real
  velocity :: nat
  gate :: nat
  tie :: bool
  slideTo :: "slide_target option"

datatype step = Rest | Note note_event | Chord "note_event list"

section \<open>The token parser\<close>

definition noteMap :: "char \<Rightarrow> int option" where
  "noteMap = map_of [(CHR ''c'', 0), (CHR ''d'', 2), (CHR ''e'', 4), (CHR ''f'', 5),
                     (CHR ''g'', 7), (CHR ''a'', 9), (CHR ''b'', 11)]"

definition midiNote :: "int \<Rightarrow> string \<Rightarrow> int \<Rightarrow> int" where
  \<comment> \<open>the MIDI note number of \<open>_noteToFrequency\<close>, from the semitone looked up in
     \<open>noteMap\<close>, the accidental text and the octave\<close>
  "midiNote semitone0 accidental octave =
     (let semitone1 = (if accidental = ''#'' then semitone0 + 1 else semitone0);
          semitone = (if accidental = ''b'' then semitone1 - 1 else semitone1)
      in (octave + 1) * 12 + semitone)"

definition noteToFrequency :: "char \<Rightarrow> string \<Rightarrow> int \<Rightarrow> real option" where
  \<comment> \<open>\<open>_noteToFrequency(letter, accidental, octave)\<close>; \<open>None\<close> stands for the NaN
     that a letter missing from \<open>noteMap\<close> would give\<close>
  "noteToFrequency letter accidental octave =
     (case noteMap (toLowerCase_char letter) of
        None \<Rightarrow> None
      | Some semitone0 \<Rightarrow>
          Some (440 * 2 powr ((real_of_int (midiNote semitone0 accidental octave) - 69) / 12)))"

fun matchNoteStr :: "string \<Rightarrow> (string \<times> string) option" where
  \<comment> \<open>the group \<open>([a-g][#b]?\d)\<close> at the start of the text: the text of the group and
     the text after it. An accidental that is not followed by a digit cannot be given
     back, because it is not a digit itself.\<close>
  "matchNoteStr (l # a # d # rest) =
     (if isNoteLetter l \<and> isAccidental a \<and> isDigit d then Some ([l, a, d], rest)
      else if isNoteLetter l \<and> isDigit a then Some ([l, a], d # rest)
      else None)"
| "matchNoteStr [l, d] = (if isNoteLetter l \<and> isDigit d then Some ([l, d], []) else None)"
| "matchNoteStr [l] = None"
| "matchNoteStr [] = None"

definition matchOptNumber :: "char \<Rightarrow> string \<Rightarrow> string option \<times> string" where
  \<comment> \<open>an optional group \<open>(?:@(\d+))?\<close> or \<open>(?::(\d+))?\<close>: the digits captured, if any, and
     the text after the group. The digits are taken greedily; giving one back leaves a
     digit where only \<open>:\<close>, \<open>~\<close> or the end of the text can follow.\<close>
  "matchOptNumber sep s =
     (case s of
        [] \<Rightarrow> (None, s)
      | c # r \<Rightarrow>
          if c = sep \<and> takeWhile isDigit r \<noteq> []
          then (Some (takeWhile isDigit r), dropWhile isDigit r)
          else (None, s))"

definition matchNote :: "string \<Rightarrow> (string \<times> string option \<times> string option \<times> bool) option" where
  \<comment> \<open>\<open>token.match(/^([a-g][#b]?\d)(?:@(\d+))?(?::(\d+))?([~])?$/i)\<close>: the four groups\<close>
  "matchNote token =
     (case matchNoteStr token of
        None \<Rightarrow> None
      | Some (noteStr, r1) \<Rightarrow>
          (let (velocityStr, r2) = matchOptNumber CHR ''@'' r1;
               (gateStr, r3) = matchOptNumber CHR '':'' r2
           in if r3 = [] then Some (noteStr, velocityStr, gateStr, False)
              else if r3 = ''~'' then Some (noteStr, velocityStr, gateStr, True)
              else None))"

definition noteMatch :: "string \<Rightarrow> (char \<times> string \<times> char) option" where
  \<comment> \<open>\<open>noteStr.match(/^([a-g])([#b]?)(\d)$/i)\<close>: letter, accidental text, octave digit\<close>
  "noteMatch noteStr =
     (case noteStr of
        [l, d] \<Rightarrow> if isNoteLetter l \<and> isDigit d then Some (l, [], d) else None
      | [l, a, d] \<Rightarrow>
          if isNoteLetter l \<and> isAccidental a \<and> isDigit d then Some (l, [a], d) else None
      | _ \<Rightarrow> None)"

definition parseNoteWithModifiers :: "string \<Rightarrow> note_event option" where
  \<comment> \<open>\<open>_parseNoteWithModifiers(token)\<close>; \<open>None\<close> is the result \<open>null\<close>\<close>
  "parseNoteWithModifiers token =
     (case matchNote token of
        None \<Rightarrow> None
      | Some (noteStr, velocityStr, gateStr, tieStr) \<Rightarrow>
          (case noteMatch noteStr of
             None \<Rightarrow> None
           | Some (letter, accidental, octave) \<Rightarrow>
               (case noteToFrequency letter accidental (int (parseInt [octave])) of
                  None \<Rightarrow> None
                | Some freq \<Rightarrow>
                    Some \<lparr> noteName = toLowerCase noteStr,
                           frequency = freq,
                           velocity = (case velocityStr of Some v \<Rightarrow> parseInt v | None \<Rightarrow> 100),
                           gate = (case gateStr of Some g \<Rightarrow> parseInt g | None \<Rightarrow> 100),
                           tie = tieStr,
                           slideTo = None \<rparr>)))"

definition slideMatch :: "string \<Rightarrow> (string \<times> string) option" where
  \<comment> \<open>\<open>token.match(/^(.+?)>(.+)$/)\<close>: the lazy first group ends before the first \<open>>\<close>
     that is not the first character; both groups are non-empty and free of line
     terminators\<close>
  "slideMatch token =
     (if \<exists>c \<in> set token. isLineTerminator c then None
      else (case token of
              [] \<Rightarrow> None
            | c # cs \<Rightarrow>
                (case dropWhile (\<lambda>x. x \<noteq> CHR ''>'') cs of
                   [] \<Rightarrow> None
                 | [g] \<Rightarrow> None
                 | g # y # ys \<Rightarrow> Some (c # takeWhile (\<lambda>x. x \<noteq> CHR ''>'') cs, y # ys))))"

definition parseSingleNote :: "string \<Rightarrow> note_event option" where
  \<comment> \<open>\<open>_parseSingleNote(token)\<close>\<close>
  "parseSingleNote token =
     (case slideMatch token of
        Some (fromStr, toStr) \<Rightarrow>
          (case (parseNoteWithModifiers fromStr, parseNoteWithModifiers toStr) of
             (Some fromNote, Some toNote) \<Rightarrow>
               Some (fromNote \<lparr> tie := True, gate := 100,
                                slideTo := Some \<lparr> to_noteName = noteName toNote,
                                                   to_frequency = frequency toNote,
                                                   to_velocity = velocity toNote \<rparr> \<rparr>)
           | _ \<Rightarrow> None)
      | None \<Rightarrow> parseNoteWithModifiers token)"

definition isChordToken :: "string \<Rightarrow> bool" where
  \<comment> \<open>\<open>token.startsWith('[') && token.endsWith(']')\<close>\<close>
  "isChordToken token = (token \<noteq> [] \<and> hd token = CHR ''['' \<and> last token = CHR '']'')"

definition chordPieces :: "string \<Rightarrow> string list" where
  \<comment> \<open>\<open>token.slice(1, -1).split(',')\<close>, each piece trimmed\<close>
  "chordPieces token = map trim (split_on CHR '','' (butlast (tl token)))"

definition parseStep :: "string \<Rightarrow> step" where
  \<comment> \<open>\<open>_parseStep(token)\<close>\<close>
  "parseStep token =
     (if token = ''-'' then Rest
      else if isChordToken token then
        (let notes = List.map_filter parseSingleNote (chordPieces token)
         in if notes = [] then Rest else Chord notes)
      else (case parseSingleNote token of
              None \<Rightarrow> Rest
            | Some note \<Rightarrow> Note note))"

definition plainChar :: "char \<Rightarrow> bool" where
  \<comment> \<open>a character that is neither the slide separator nor a line terminator\<close>
  "plainChar c = (c \<noteq> CHR ''>'' \<and> \<not> isLineTerminator c)"


section \<open>The pattern parser\<close>

function splitWs :: "string \<Rightarrow> string list" where
  \<comment> \<open>\<open>s.split(/\s+/)\<close>: the pieces between maximal runs of white space; white space at
     either end gives an empty piece there\<close>
  "splitWs s =
     (let w = takeWhile (\<lambda>c. \<not> isSpace c) s;
          r = dropWhile (\<lambda>c. \<not> isSpace c) s
      in if r = [] then [w] else w # splitWs (dropWhile isSpace r))"
  by pat_completeness auto
termination
proof (relation "measure length")
  show "wf (measure length)" by simp
next
  fix s :: string and w r
  assume r: "r = dropWhile (\<lambda>c. \<not> isSpace c) s" and ne: "r \<noteq> []"
  from ne obtain c cs where rc: "r = c # cs" by (cases r) auto
  have "isSpace c" using r rc by (metis hd_dropWhile list.sel(1) ne)
  then have "length (dropWhile isSpace r) \<le> length cs"
    using rc by (simp add: length_dropWhile_le)
  moreover have "length r \<le> length s" using r by (simp add: length_dropWhile_le)
  ultimately show "(dropWhile isSpace r, s) \<in> measure length" using rc by simp
qed

definition matchKeyword :: "string \<Rightarrow> string \<Rightarrow> (string \<times> string) option" where
  \<comment> \<open>the common start \<open>^keyword\s+\<close> of the four line patterns, under the flag \<open>i\<close>: the
     longest run of white space after the keyword and the text after that run\<close>
  "matchKeyword kw s =
     (if length kw \<le> length s \<and> map toLowerCase_char (take (length kw) s) = kw
      then (let ws = takeWhile isSpace (drop (length kw) s);
                rest = dropWhile isSpace (drop (length kw) s)
            in if ws = [] then None else Some (ws, rest))
      else None)"

definition matchKeywordDigits :: "string \<Rightarrow> string \<Rightarrow> string option" where
  \<comment> \<open>\<open>/^keyword\s+(\d+)$/i\<close>: the digits. The white space is taken greedily and none
     of it can be given back to \<open>\d+\<close>.\<close>
  "matchKeywordDigits kw s =
     (case matchKeyword kw s of
        None \<Rightarrow> None
      | Some (ws, rest) \<Rightarrow> if rest \<noteq> [] \<and> list_all isDigit rest then Some rest else None)"

definition matchKeywordRest :: "string \<Rightarrow> string \<Rightarrow> string option" where
  \<comment> \<open>\<open>/^keyword\s+(.+)$/i\<close>: the group. When nothing follows the white space, the last
     white-space character is given back to \<open>.+\<close>, if it is not a line terminator.\<close>
  "matchKeywordRest kw s =
     (case matchKeyword kw s of
        None \<Rightarrow> None
      | Some (ws, rest) \<Rightarrow>
          if rest \<noteq> [] then (if list_ex isLineTerminator rest then None else Some rest)
          else if 2 \<le> length ws \<and> \<not> isLineTerminator (last ws) then Some [last ws]
          else None)"

record track =
  oscillator :: "string option"
  steps :: "step list"

record parse_locals =
  l_bpm :: nat
  l_swing :: nat
  l_tracks :: "track list"
  l_currentTrack :: "nat option"

text \<open>
  The local variable \<open>currentTrack\<close> of \<open>parse\<close> refers to a track object that is also an
  element of \<open>tracks\<close>; it is modelled by the index of that element, so that assigning to
  \<open>currentTrack.steps\<close> updates the list.
\<close>

definition parseSequence :: "string \<Rightarrow> step list" where
  \<comment> \<open>\<open>seqMatch[1].trim().split(/\s+/).map(token => this._parseStep(token))\<close>\<close>
  "parseSequence r = map parseStep (splitWs (trim r))"

definition parseLine :: "string \<Rightarrow> parse_locals \<Rightarrow> parse_locals" where
  \<comment> \<open>the body of the loop over the lines in \<open>parse\<close>\<close>
  "parseLine line st =
     (let trimmed = trim line in
      if trimmed = [] \<or> hd trimmed = CHR ''#'' then st
      else (case matchKeywordDigits ''bpm'' trimmed of
              Some d \<Rightarrow> st \<lparr> l_bpm := parseInt d \<rparr>
            | None \<Rightarrow>
          (case matchKeywordDigits ''swing'' trimmed of
              Some d \<Rightarrow> st \<lparr> l_swing := max 0 (min 100 (parseInt d)) \<rparr>
            | None \<Rightarrow>
          (case matchKeywordRest ''oscillator'' trimmed of
              Some r \<Rightarrow> st \<lparr> l_tracks := l_tracks st @ [\<lparr> oscillator = Some (trim r), steps = [] \<rparr>],
                              l_currentTrack := Some (length (l_tracks st)) \<rparr>
            | None \<Rightarrow>
          (case matchKeywordRest ''sequence'' trimmed of
              Some r \<Rightarrow>
                (case l_currentTrack st of
                   Some i \<Rightarrow> st \<lparr> l_tracks := (l_tracks st)[i := (l_tracks st ! i) \<lparr> steps := parseSequence r \<rparr>] \<rparr>
                 | None \<Rightarrow> st \<lparr> l_tracks := l_tracks st @ [\<lparr> oscillator = None, steps = parseSequence r \<rparr>] \<rparr>)
            | None \<Rightarrow> st)))))"

definition parseLines :: "string list \<Rightarrow> parse_locals \<Rightarrow> parse_locals" where
  "parseLines ls st = foldl (\<lambda>st line. parseLine line st) st ls"

definition initial_locals :: parse_locals where
  "initial_locals = \<lparr> l_bpm = 120, l_swing = 50, l_tracks = [], l_currentTrack = None \<rparr>"

section \<open>The sequencer\<close>

type_synonym noteId = nat

type_synonym voice_table = "(string \<times> noteId) list"

text \<open>
  A \<open>voice_table\<close> is the inner \<open>Map<noteName, noteId>\<close> of \<open>activeNotes\<close>, as the list of
  its entries in insertion order, which is the order in which the scheduler visits them.
  The keys of a \<open>Map\<close> are pairwise distinct. The outer map, from track key to table, is
  only ever looked up by key in the functions modelled here, so it is a partial function.
\<close>

record sequencer =
  bpm :: nat
  swing :: nat
  tracks :: "track list"
  currentStep :: "nat option"
  maxSteps :: nat
  isPlaying :: bool
  intervalId :: "real option"
  timeouts :: "(real \<times> real) list"
  stopNote_set :: bool
  activeNotes :: "string \<Rightarrow> voice_table option"

text \<open>
  \<open>currentStep\<close> is \<open>None\<close> when the JavaScript value is NaN, which is what the remainder
  by a \<open>maxSteps\<close> of zero gives. \<open>intervalId\<close> holds the period in milliseconds of the
  running interval timer, \<open>timeouts\<close> the pending one-shot timers of swing-delayed steps
  (delay and the step duration their closure has captured), oldest first.
  \<open>stopNote_set\<close> says whether \<open>play\<close> was given a stop callback. The callback
  \<open>triggerNote\<close> is a parameter of the functions that call it.
\<close>

definition maxStepsOf :: "track list \<Rightarrow> nat" where
  \<comment> \<open>\<open>Math.max(...tracks.map(t => t.steps.length), 0)\<close>\<close>
  "maxStepsOf ts = foldr max (map (\<lambda>t. length (steps t)) ts) 0"

definition parse :: "string \<Rightarrow> sequencer \<Rightarrow> sequencer" where
  \<comment> \<open>\<open>parse(text)\<close>; the value it returns is made of the fields \<open>bpm\<close>, \<open>swing\<close> and
     \<open>tracks\<close> of the new state\<close>
  "parse text s =
     (let st = parseLines (split_on CHR 0x0A text) initial_locals
      in s \<lparr> bpm := l_bpm st, swing := l_swing st, tracks := l_tracks st,
              maxSteps := maxStepsOf (l_tracks st) \<rparr>)"

definition new_sequencer :: sequencer where
  \<comment> \<open>the constructor\<close>
  "new_sequencer = \<lparr> bpm = 120, swing = 50, tracks = [], currentStep = Some 0, maxSteps = 0,
      isPlaying = False, intervalId = None, timeouts = [], stopNote_set = False,
      activeNotes = (\<lambda>k. None) \<rparr>"

section \<open>Diagnostics of the token parser\<close>




record start_args =
  sa_frequency :: real
  sa_noteName :: string
  sa_noteDuration :: real
  sa_oscillator :: "string option"
  sa_midiVelocity :: int
  sa_tie :: bool
  sa_slideTo :: "slide_target option"

datatype command = Start start_args | Stop noteId

text \<open>
  A \<open>command\<close> is a call of one of the two callbacks given to \<open>play\<close>:
  \<open>Start\<close> with the seven arguments of \<open>triggerNote\<close>, \<open>Stop\<close> with the argument of
  \<open>stopNote\<close>. The scheduler functions take the list of all calls made so far and
  return the calls they add. What \<open>triggerNote\<close> returns may depend on every call made
  before; \<open>None\<close> stands for a return value that JavaScript treats as false.
\<close>

type_synonym trigger = "command list \<Rightarrow> start_args \<Rightarrow> noteId option"

definition trackKey :: "track \<Rightarrow> string" where
  \<comment> \<open>\<open>track.oscillator || '_default'\<close>\<close>
  "trackKey t = (case oscillator t of
                   None \<Rightarrow> ''_default''
                 | Some name \<Rightarrow> if name = [] then ''_default'' else name)"

fun getStepNotes :: "step \<Rightarrow> note_event list" where
  \<comment> \<open>\<open>_getStepNotes(step)\<close>\<close>
  "getStepNotes Rest = []"
| "getStepNotes (Chord notes) = notes"
| "getStepNotes (Note n) = [n]"

definition stepAt :: "track \<Rightarrow> nat option \<Rightarrow> step" where
  \<comment> \<open>the constant \<open>step\<close> of \<open>executeStep\<close>\<close>
  "stepAt t cs = (case cs of
                    None \<Rightarrow> Rest
                  | Some i \<Rightarrow> if i < length (steps t) then steps t ! i else Rest)"

definition prevStepAt :: "track \<Rightarrow> nat option \<Rightarrow> step" where
  \<comment> \<open>the constant \<open>prevStep\<close> of \<open>executeStep\<close>\<close>
  "prevStepAt t cs = (case cs of
                        None \<Rightarrow> Rest
                      | Some i \<Rightarrow> if 0 < i \<and> i - 1 < length (steps t) then steps t ! (i - 1) else Rest)"

definition notesByName :: "note_event list \<Rightarrow> string \<Rightarrow> note_event option" where
  \<comment> \<open>the lookups \<open>prevNotesByName\<close> and \<open>currentNotesByName\<close>: a later note of the same
     name replaces an earlier one\<close>
  "notesByName notes = foldl (\<lambda>m note. m(noteName note \<mapsto> note)) (\<lambda>k. None) notes"

definition shouldContinue ::
  "(string \<Rightarrow> note_event option) \<Rightarrow> (string \<Rightarrow> note_event option) \<Rightarrow> string \<Rightarrow> bool" where
  \<comment> \<open>\<open>prevNote?.tie && currentNote\<close>, as a truth value\<close>
  "shouldContinue prevBy curBy name =
     ((case prevBy name of None \<Rightarrow> False | Some prevNote \<Rightarrow> tie prevNote) \<and> curBy name \<noteq> None)"

fun stopLoop ::
  "bool \<Rightarrow> (string \<Rightarrow> note_event option) \<Rightarrow> (string \<Rightarrow> note_event option) \<Rightarrow> voice_table
     \<Rightarrow> voice_table \<times> command list" where
  \<comment> \<open>the loop over the entries of \<open>trackActiveNotes\<close>: the entries that stay, and the
     calls of \<open>stopNote\<close>. Deleting the entry being visited leaves the other entries, which
     have other keys, in place.\<close>
  "stopLoop hasStop prevBy curBy [] = ([], [])"
| "stopLoop hasStop prevBy curBy ((name, noteId) # rest) =
     (let (kept, cmds) = stopLoop hasStop prevBy curBy rest
      in if shouldContinue prevBy curBy name then ((name, noteId) # kept, cmds)
         else (kept, (if hasStop then [Stop noteId] else []) @ cmds))"

definition table_has :: "voice_table \<Rightarrow> string \<Rightarrow> bool" where
  "table_has tbl name = (name \<in> set (map fst tbl))"

definition table_set :: "voice_table \<Rightarrow> string \<Rightarrow> noteId \<Rightarrow> voice_table" where
  \<comment> \<open>\<open>Map.prototype.set\<close>: a new key goes to the end, an old key keeps its place\<close>
  "table_set tbl name noteId =
     (if table_has tbl name then map (\<lambda>(k, v). if k = name then (k, noteId) else (k, v)) tbl
      else tbl @ [(name, noteId)])"

definition startArgs :: "real \<Rightarrow> string option \<Rightarrow> note_event \<Rightarrow> start_args" where
  \<comment> \<open>the arguments of the call of \<open>triggerNote\<close>; \<open>Math.round\<close> rounds half up\<close>
  "startArgs stepDuration osc note =
     \<lparr> sa_frequency = frequency note,
       sa_noteName = noteName note,
       sa_noteDuration = stepDuration * ((real (gate note) / 100) * 0.9),
       sa_oscillator = osc,
       sa_midiVelocity = \<lfloor>(real (velocity note) / 100) * 127 + 1 / 2\<rfloor>,
       sa_tie = tie note,
       sa_slideTo = slideTo note \<rparr>"

fun startLoop ::
  "trigger \<Rightarrow> real \<Rightarrow> string option \<Rightarrow> note_event list \<Rightarrow> voice_table \<Rightarrow> command list
     \<Rightarrow> voice_table \<times> command list" where
  \<comment> \<open>the loop over \<open>currentNotes\<close>: the table at the end, and the calls of \<open>triggerNote\<close>\<close>
  "startLoop trig stepDuration osc [] tbl hist = (tbl, [])"
| "startLoop trig stepDuration osc (note # rest) tbl hist =
     (if table_has tbl (noteName note) then startLoop trig stepDuration osc rest tbl hist
      else (let args = startArgs stepDuration osc note;
                noteId = trig hist args;
                tbl' = (case noteId of
                          Some i \<Rightarrow> if tie note then table_set tbl (noteName note) i else tbl
                        | None \<Rightarrow> tbl);
                (tbl'', cmds) = startLoop trig stepDuration osc rest tbl' (hist @ [Start args])
            in (tbl'', Start args # cmds)))"

definition processTrack ::
  "trigger \<Rightarrow> real \<Rightarrow> bool \<Rightarrow> nat option \<Rightarrow> track \<Rightarrow> voice_table \<Rightarrow> command list
     \<Rightarrow> voice_table \<times> command list" where
  \<comment> \<open>the body of the loop over the tracks in \<open>executeStep\<close>, on the table of the track\<close>
  "processTrack trig stepDuration hasStop cs t tbl hist =
     (let currentNotes = getStepNotes (stepAt t cs);
          prevNotes = getStepNotes (prevStepAt t cs);
          prevNotesByName = notesByName prevNotes;
          currentNotesByName = notesByName currentNotes;
          (kept, stops) = stopLoop hasStop prevNotesByName currentNotesByName tbl;
          (tbl', starts) = startLoop trig stepDuration (oscillator t) currentNotes kept (hist @ stops)
      in (tbl', stops @ starts))"

fun runTracks ::
  "trigger \<Rightarrow> real \<Rightarrow> bool \<Rightarrow> nat option \<Rightarrow> track list \<Rightarrow> (string \<Rightarrow> voice_table option)
     \<Rightarrow> command list \<Rightarrow> (string \<Rightarrow> voice_table option) \<times> command list" where
  \<comment> \<open>the loop over the tracks: a track without a table gets an empty one\<close>
  "runTracks trig stepDuration hasStop cs [] an hist = (an, [])"
| "runTracks trig stepDuration hasStop cs (t # ts) an hist =
     (let trackActiveNotes = (case an (trackKey t) of None \<Rightarrow> [] | Some tbl \<Rightarrow> tbl);
          (tbl', cmds) = processTrack trig stepDuration hasStop cs t trackActiveNotes hist;
          (an', cmds') = runTracks trig stepDuration hasStop cs ts (an(trackKey t \<mapsto> tbl')) (hist @ cmds)
      in (an', cmds @ cmds'))"

definition executeStep :: "trigger \<Rightarrow> real \<Rightarrow> sequencer \<times> command list \<Rightarrow> sequencer \<times> command list" where
  \<comment> \<open>the closure \<open>executeStep\<close> of \<open>_playCurrentStep\<close>: the new state and the calls made
     so far\<close>
  "executeStep trig stepDuration w =
     (let s = fst w; hist = snd w;
          (an, cmds) = runTracks trig stepDuration (stopNote_set s) (currentStep s) (tracks s)
                         (activeNotes s) hist
      in (s \<lparr> activeNotes := an \<rparr>, hist @ cmds))"

definition swingDelay :: "sequencer \<Rightarrow> real \<Rightarrow> real" where
  "swingDelay s stepDuration =
     (if (case currentStep s of None \<Rightarrow> False | Some i \<Rightarrow> i mod 2 = 1)
      then ((real (swing s) - 50) / 100) * stepDuration
      else 0)"

definition playCurrentStep ::
  "trigger \<Rightarrow> real \<Rightarrow> sequencer \<times> command list \<Rightarrow> sequencer \<times> command list" where
  \<comment> \<open>\<open>_playCurrentStep(triggerNote, stepDuration)\<close>: the step runs now, or a one-shot
     timer is set for it. The notification \<open>onStepChange\<close> is not modelled.\<close>
  "playCurrentStep trig stepDuration w =
     (let s = fst w; hist = snd w
      in if 0 < swingDelay s stepDuration
         then (s \<lparr> timeouts := timeouts s @ [(swingDelay s stepDuration, stepDuration)] \<rparr>, hist)
         else executeStep trig stepDuration w)"

definition fireTimeout :: "trigger \<Rightarrow> sequencer \<times> command list \<Rightarrow> sequencer \<times> command list" where
  \<comment> \<open>the oldest pending one-shot timer fires\<close>
  "fireTimeout trig w =
     (case timeouts (fst w) of
        [] \<Rightarrow> w
      | (delay, stepDuration) # rest \<Rightarrow> executeStep trig stepDuration (fst w \<lparr> timeouts := rest \<rparr>, snd w))"







section \<open>Notions used to state the properties\<close>

definition tableOf :: "(string \<Rightarrow> voice_table option) \<Rightarrow> string \<Rightarrow> voice_table" where
  \<comment> \<open>the table of a track key; a key without a table reads as the empty table that the
     scheduler would create for it\<close>
  "tableOf an k = (case an k of None \<Rightarrow> [] | Some tbl \<Rightarrow> tbl)"

definition continues :: "track \<Rightarrow> nat option \<Rightarrow> string \<Rightarrow> bool" where
  \<comment> \<open>the value of \<open>shouldContinue\<close> for a note name, on a track at a step\<close>
  "continues t cs name =
     shouldContinue (notesByName (getStepNotes (prevStepAt t cs)))
                    (notesByName (getStepNotes (stepAt t cs))) name"

definition stopsOf :: "command list \<Rightarrow> noteId list" where
  \<comment> \<open>the arguments of the calls of \<open>stopNote\<close>, in order\<close>
  "stopsOf cmds = concat (map (\<lambda>c. case c of Stop i \<Rightarrow> [i] | Start a \<Rightarrow> []) cmds)"


section \<open>Concrete states used as examples\<close>

definition wrap_example :: sequencer where
  "wrap_example = new_sequencer \<lparr> tracks := [\<lparr> oscillator = Some ''lead'',
                                               steps = [parseStep ''c4~'', parseStep ''c4~''] \<rparr>],
      maxSteps := 2, isPlaying := True, intervalId := Some 125, stopNote_set := True,
      activeNotes := (\<lambda>k. None)(''lead'' \<mapsto> [(''c4'', 7)]) \<rparr>"




section \<open>The voice synthesis engine\<close>

text \<open>
  The calls that the engine makes on the nodes of the Web Audio graph are modelled as
  data. A node is named by a number, times are in seconds as \<open>audioContext.currentTime\<close>
  gives them, and the value that a gain parameter has when it is read is a parameter of
  the model. Attribute values come from the component store, which is not part of the
  sources at hand; a resolved attribute is a parameter, \<open>None\<close> when it is \<open>null\<close>.
\<close>

datatype audio_call =
    CancelScheduledValues nat real
  | SetValueAtTime nat real real
  | LinearRampToValueAtTime nat real real
  | OscillatorStop nat
  | Disconnect nat

record osc_layer =
  osc :: nat
  envGain :: nat
  releaseTime :: real

record note_instance =
  noteGain :: nat
  oscillators :: "osc_layer list"
  lfos :: "nat list"

definition orDefault :: "real option \<Rightarrow> real \<Rightarrow> real" where
  \<comment> \<open>\<open>attr || d\<close> for a number or \<open>null\<close>: zero counts as missing\<close>
  "orDefault attr d = (case attr of None \<Rightarrow> d | Some r \<Rightarrow> if r = 0 then d else r)"

definition releaseCalls :: "(nat \<Rightarrow> real) \<Rightarrow> real \<Rightarrow> nat \<Rightarrow> real \<Rightarrow> audio_call list" where
  \<comment> \<open>the three calls made on one gain parameter\<close>
  "releaseCalls gainValue now g release =
     [CancelScheduledValues g now,
      SetValueAtTime g (gainValue g) now,
      LinearRampToValueAtTime g 0 (now + release)]"

definition NoteInstance_stop ::
  "real \<Rightarrow> (nat \<Rightarrow> real) \<Rightarrow> real option \<Rightarrow> note_instance \<Rightarrow> audio_call list \<times> real \<times> audio_call list" where
  \<comment> \<open>\<open>NoteInstance.stop()\<close>: the calls made at once, and the one-shot timer it sets, as
     its delay in milliseconds and the calls of its callback\<close>
  "NoteInstance_stop now gainValue masterReleaseAttr v =
     (let masterRelease = orDefault masterReleaseAttr 500;
          masterReleaseTime = masterRelease / 1000;
          maxRelease = foldl max masterReleaseTime (map releaseTime (oscillators v))
      in (releaseCalls gainValue now (noteGain v) masterReleaseTime @
          concat (map (\<lambda>layer. releaseCalls gainValue now (envGain layer) (releaseTime layer))
                      (oscillators v)),
          maxRelease * 1000 + 100,
          map (\<lambda>layer. OscillatorStop (osc layer)) (oscillators v) @ map OscillatorStop (lfos v)))"

definition isDisconnect :: "audio_call \<Rightarrow> bool" where
  "isDisconnect c = (case c of Disconnect n \<Rightarrow> True | _ \<Rightarrow> False)"

section \<open>The distortion stage\<close>

definition makeDistortionCurve :: "real \<Rightarrow> real list" where
  \<comment> \<open>\<open>_makeDistortionCurve(drive)\<close>; the rounding of the samples to single precision in
     the \<open>Float32Array\<close> is not modelled\<close>
  "makeDistortionCurve drive =
     (let samples = 44100; amount = drive / 100
      in map (\<lambda>i. let x = (real i * 2) / real samples - 1
                  in if amount = 0 then x
                     else (let k = amount * 50;
                               saturated = tanh (k * x) / tanh k
                           in x * (1 - amount) + saturated * amount))
             [0..<samples])"

datatype dist_node = InputGain | OutputGain | WetGain | DryGain | Waveshaper

record distortion =
  wetGain_value :: real
  dryGain_value :: real
  outputGain_value :: real
  curve :: "real list"
  oversample :: string
  connections :: "(dist_node \<times> dist_node) list"

definition createDistortionNode :: "(real option \<times> real option) option \<Rightarrow> distortion option" where
  \<comment> \<open>\<open>_createDistortionNode(componentName)\<close>, given what the store has under that name:
     nothing, or a component with its resolved attributes \<open>drive\<close> and \<open>mix\<close>. The result
     \<open>{ input, output }\<close> is the pair of \<open>InputGain\<close> and \<open>OutputGain\<close> of the chain.\<close>
  "createDistortionNode component =
     (case component of
        None \<Rightarrow> None
      | Some (driveAttr, mixAttr) \<Rightarrow>
          (let drive = (case driveAttr of None \<Rightarrow> 50 | Some d \<Rightarrow> d);
               mix = (case mixAttr of None \<Rightarrow> 100 | Some m \<Rightarrow> m);
               wetAmount = mix / 100;
               dryAmount = 1 - wetAmount;
               compensation = 1 - (drive / 100) * 0.5
           in Some \<lparr> wetGain_value = wetAmount, dryGain_value = dryAmount,
                     outputGain_value = compensation, curve = makeDistortionCurve drive,
                     oversample = ''2x'',
                     connections = [(InputGain, DryGain), (DryGain, OutputGain),
                                    (InputGain, Waveshaper), (Waveshaper, WetGain),
                                    (WetGain, OutputGain)] \<rparr>))"

definition stop_example :: note_instance where
  \<comment> \<open>a started voice with one oscillator layer of release 500 ms and one vibrato LFO\<close>
  "stop_example = \<lparr> noteGain = 0, oscillators = [\<lparr> osc = 1, envGain = 2, releaseTime = 1 / 2 \<rparr>],
                    lfos = [3] \<rparr>"

section \<open>Properties of the token parser\<close>

lemma matchNoteStr_SomeD:
  assumes "matchNoteStr s = Some (ns, r)"
  shows "s = ns @ r \<and>
         ((\<exists>l d. ns = [l, d] \<and> isNoteLetter l \<and> isDigit d) \<or>
          (\<exists>l a d. ns = [l, a, d] \<and> isNoteLetter l \<and> isAccidental a \<and> isDigit d))"
  using assms by (induction s rule: matchNoteStr.induct) (auto split: if_splits)

lemma digit_not_accidental: "isDigit c \<Longrightarrow> \<not> isAccidental c"
  by (auto simp: isDigit_def isAccidental_def)

lemma noteMatch_two: "isNoteLetter l \<Longrightarrow> isDigit d \<Longrightarrow> noteMatch [l, d] = Some (l, [], d)"
  by (simp add: noteMatch_def)

lemma noteMatch_three:
  "isNoteLetter l \<Longrightarrow> isAccidental a \<Longrightarrow> isDigit d \<Longrightarrow> noteMatch [l, a, d] = Some (l, [a], d)"
  by (simp add: noteMatch_def)

lemma parseInt_single: "parseInt [d] = digitValue d"
  by (simp add: parseInt_def)

lemma c4_value: "\<bar>440 * 2 powr ((real_of_int 60 - 69) / 12) - 261.63\<bar> \<le> (0.01::real)"
proof -
  define x :: real where "x = 2 powr ((real_of_int 60 - 69) / 12)"
  have xpos: "0 < x" by (simp add: x_def)
  have "x ^ 4 = 2 powr (((real_of_int 60 - 69) / 12) * 4)"
    unfolding x_def by (simp add: powr_powr flip: powr_numeral)
  also have "\<dots> = 2 powr (-3)" by simp
  also have "\<dots> = 1 / 8" by (simp add: powr_minus_divide)
  finally have x4: "x ^ 4 = 1 / 8" .
  have lo: "26162 / 44000 \<le> x"
  proof (rule ccontr)
    assume "\<not> 26162 / 44000 \<le> x"
    then have "x < 26162 / 44000" by simp
    then have "x ^ 4 < (26162 / 44000) ^ 4"
      using xpos by (intro power_strict_mono) auto
    then show False using x4 by (simp add: power4_eq_xxxx)
  qed
  have hi: "x \<le> 26164 / 44000"
  proof (rule ccontr)
    assume "\<not> x \<le> 26164 / 44000"
    then have "26164 / 44000 < x" by simp
    then have "(26164 / 44000) ^ 4 < x ^ 4"
      by (intro power_strict_mono) auto
    then show False using x4 by (simp add: power4_eq_xxxx)
  qed
  from lo have "261.62 \<le> 440 * x" by simp
  moreover from hi have "440 * x \<le> 261.64" by simp
  ultimately have "440 * x - 261.63 \<le> 0.01" and "- (440 * x - 261.63) \<le> 0.01" by simp_all
  then show ?thesis unfolding x_def[symmetric] by (rule abs_leI)
qed

lemma isNoteLetter_cases:
  assumes "isNoteLetter l"
  obtains "l = CHR ''a''" | "l = CHR ''b''" | "l = CHR ''c''" | "l = CHR ''d''" | "l = CHR ''e''"
    | "l = CHR ''f''" | "l = CHR ''g''" | "l = CHR ''A''" | "l = CHR ''B''" | "l = CHR ''C''"
    | "l = CHR ''D''" | "l = CHR ''E''" | "l = CHR ''F''" | "l = CHR ''G''"
  using assms unfolding isNoteLetter_def by (simp, elim disjE) blast+

lemma noteMap_letter:
  assumes "isNoteLetter l"
  shows "\<exists>st. noteMap (toLowerCase_char l) = Some st \<and>
     (toLowerCase_char l, st) \<in> set [(CHR ''c'', 0), (CHR ''d'', 2), (CHR ''e'', 4), (CHR ''f'', 5),
                     (CHR ''g'', 7), (CHR ''a'', 9), (CHR ''b'', 11)]"
  using assms by (cases rule: isNoteLetter_cases) (simp_all add: noteMap_def toLowerCase_char_def)

lemma matchNote_SomeD:
  assumes "matchNote token = Some (noteStr, v, g, t)"
  shows "\<exists>r. matchNoteStr token = Some (noteStr, r)"
  using assms by (auto simp: matchNote_def split: option.splits prod.splits if_splits)

lemma parseNoteWithModifiers_frequency:
  assumes "parseNoteWithModifiers token = Some n"
  shows "\<exists>letter accidental octave rest semitone0.
           token = letter # accidental @ octave # rest \<and>
           isNoteLetter letter \<and> (accidental = [] \<or> (\<exists>a. accidental = [a] \<and> isAccidental a)) \<and>
           isDigit octave \<and>
           (toLowerCase_char letter, semitone0) \<in>
              set [(CHR ''c'', 0), (CHR ''d'', 2), (CHR ''e'', 4), (CHR ''f'', 5),
                   (CHR ''g'', 7), (CHR ''a'', 9), (CHR ''b'', 11)] \<and>
           frequency n = 440 * 2 powr ((real_of_int
               ((int (digitValue octave) + 1) * 12
                 + (semitone0 + (if accidental = ''#'' then 1 else 0)
                              - (if accidental = ''b'' then 1 else 0))) - 69) / 12)"
proof -
  from assms obtain noteStr v g t where m: "matchNote token = Some (noteStr, v, g, t)"
    by (auto simp: parseNoteWithModifiers_def split: option.splits)
  then obtain r where ms: "matchNoteStr token = Some (noteStr, r)"
    using matchNote_SomeD by blast
  from matchNoteStr_SomeD[OF ms] have tok: "token = noteStr @ r"
    and shape: "(\<exists>l d. noteStr = [l, d] \<and> isNoteLetter l \<and> isDigit d) \<or>
          (\<exists>l a d. noteStr = [l, a, d] \<and> isNoteLetter l \<and> isAccidental a \<and> isDigit d)"
    by auto
  from shape show ?thesis
  proof (elim disjE exE conjE)
    fix l d assume ns: "noteStr = [l, d]" and l: "isNoteLetter l" and d: "isDigit d"
    from noteMap_letter[OF l] obtain st where st: "noteMap (toLowerCase_char l) = Some st"
      and tab: "(toLowerCase_char l, st) \<in> set [(CHR ''c'', 0), (CHR ''d'', 2), (CHR ''e'', 4),
            (CHR ''f'', 5), (CHR ''g'', 7), (CHR ''a'', 9), (CHR ''b'', 11)]" by blast
    have "frequency n = 440 * 2 powr ((real_of_int (midiNote st [] (int (digitValue d))) - 69) / 12)"
      using assms m ns l d st
      by (auto simp: parseNoteWithModifiers_def noteMatch_two parseInt_single noteToFrequency_def
               split: option.splits)
    then have "frequency n = 440 * 2 powr ((real_of_int
               ((int (digitValue d) + 1) * 12
                 + (st + (if [] = ''#'' then 1 else 0) - (if [] = ''b'' then 1 else 0))) - 69) / 12)"
      by (simp add: midiNote_def)
    with tok ns l d tab show ?thesis by (intro exI[of _ l] exI[of _ "[]"] exI[of _ d] exI[of _ r] exI[of _ st]) simp
  next
    fix l a d assume ns: "noteStr = [l, a, d]" and l: "isNoteLetter l" and a: "isAccidental a"
      and d: "isDigit d"
    from noteMap_letter[OF l] obtain st where st: "noteMap (toLowerCase_char l) = Some st"
      and tab: "(toLowerCase_char l, st) \<in> set [(CHR ''c'', 0), (CHR ''d'', 2), (CHR ''e'', 4),
            (CHR ''f'', 5), (CHR ''g'', 7), (CHR ''a'', 9), (CHR ''b'', 11)]" by blast
    have "frequency n = 440 * 2 powr ((real_of_int (midiNote st [a] (int (digitValue d))) - 69) / 12)"
      using assms m ns l a d st
      by (auto simp: parseNoteWithModifiers_def noteMatch_three parseInt_single noteToFrequency_def
               split: option.splits)
    then have "frequency n = 440 * 2 powr ((real_of_int
               ((int (digitValue d) + 1) * 12
                 + (st + (if [a] = ''#'' then 1 else 0) - (if [a] = ''b'' then 1 else 0))) - 69) / 12)"
      by (simp add: midiNote_def Let_def)
    with tok ns l a d tab show ?thesis
      by (intro exI[of _ l] exI[of _ "[a]"] exI[of _ d] exI[of _ r] exI[of _ st]) simp
  qed
qed

lemmas pdefs = parseStep_def parseSingleNote_def slideMatch_def parseNoteWithModifiers_def matchNote_def
  matchOptNumber_def noteMatch_def isDigit_def isNoteLetter_def isAccidental_def isLineTerminator_def
  toLowerCase_def toLowerCase_char_def parseInt_def digitValue_def isChordToken_def 

lemma parse_a4: "parseStep ''a4'' = Note \<lparr> noteName = ''a4'', frequency = 440, velocity = 100, gate = 100,
    tie = False, slideTo = None \<rparr>"
  by (simp add: pdefs noteToFrequency_def noteMap_def midiNote_def)

lemma parse_c4: "parseStep ''c4'' = Note \<lparr> noteName = ''c4'',
    frequency = 440 * 2 powr ((real_of_int 60 - 69) / 12), velocity = 100, gate = 100,
    tie = False, slideTo = None \<rparr>"
  by (simp add: pdefs noteToFrequency_def noteMap_def midiNote_def)

lemma plainChar_digit: "isDigit c \<Longrightarrow> plainChar c"
  unfolding isDigit_def plainChar_def isLineTerminator_def by (simp, elim disjE) simp_all

lemma plainChar_letter:
  assumes "isNoteLetter c"
  shows "plainChar c"
  using assms by (cases rule: isNoteLetter_cases) (simp_all add: plainChar_def isLineTerminator_def)

lemma plainChar_accidental: "isAccidental c \<Longrightarrow> plainChar c"
  unfolding isAccidental_def plainChar_def isLineTerminator_def by (simp, elim disjE) simp_all

lemma matchOptNumber_plain:
  assumes "matchOptNumber sep s = (v, r)" and "plainChar sep" and "\<forall>c \<in> set r. plainChar c"
  shows "\<forall>c \<in> set s. plainChar c"
proof (cases s)
  case Nil
  then show ?thesis by simp
next
  case (Cons c t)
  show ?thesis
  proof (cases "c = sep \<and> takeWhile isDigit t \<noteq> []")
    case True
    with assms(1) Cons have r: "r = dropWhile isDigit t" by (simp add: matchOptNumber_def)
    have "set t = set (takeWhile isDigit t) \<union> set (dropWhile isDigit t)"
      by (metis set_append takeWhile_dropWhile_id)
    moreover have "\<forall>x \<in> set (takeWhile isDigit t). plainChar x"
      using set_takeWhileD plainChar_digit by metis
    ultimately show ?thesis using Cons True assms(2,3) r by auto
  next
    case False
    with assms(1) Cons have "r = s" by (auto simp: matchOptNumber_def)
    with assms(3) show ?thesis by simp
  qed
qed

lemma parseNoteWithModifiers_plain:
  assumes "parseNoteWithModifiers token = Some n"
  shows "token \<noteq> [] \<and> (\<forall>c \<in> set token. plainChar c) \<and> isNoteLetter (hd token)"
proof -
  from assms obtain noteStr v g t where m: "matchNote token = Some (noteStr, v, g, t)"
    by (auto simp: parseNoteWithModifiers_def split: option.splits)
  then obtain r1 where ms: "matchNoteStr token = Some (noteStr, r1)"
    using matchNote_SomeD by blast
  obtain v' r2 where o1: "matchOptNumber CHR ''@'' r1 = (v', r2)" by (cases "matchOptNumber CHR ''@'' r1")
  obtain g' r3 where o2: "matchOptNumber CHR '':'' r2 = (g', r3)" by (cases "matchOptNumber CHR '':'' r2")
  from m ms o1 o2 have r3: "r3 = [] \<or> r3 = ''~''"
    by (auto simp: matchNote_def split: if_splits)
  then have p3: "\<forall>c \<in> set r3. plainChar c"
    by (auto simp: plainChar_def isLineTerminator_def)
  have p2: "\<forall>c \<in> set r2. plainChar c"
    by (rule matchOptNumber_plain[OF o2 _ p3]) (simp add: plainChar_def isLineTerminator_def)
  have p1: "\<forall>c \<in> set r1. plainChar c"
    by (rule matchOptNumber_plain[OF o1 _ p2]) (simp add: plainChar_def isLineTerminator_def)
  from matchNoteStr_SomeD[OF ms] have tok: "token = noteStr @ r1"
    and shape: "(\<exists>l d. noteStr = [l, d] \<and> isNoteLetter l \<and> isDigit d) \<or>
          (\<exists>l a d. noteStr = [l, a, d] \<and> isNoteLetter l \<and> isAccidental a \<and> isDigit d)"
    by auto
  from shape have "noteStr \<noteq> [] \<and> (\<forall>c \<in> set noteStr. plainChar c) \<and> isNoteLetter (hd noteStr)"
    using plainChar_digit plainChar_letter plainChar_accidental by auto
  with tok p1 show ?thesis by auto
qed

lemma slideMatch_join:
  assumes "X \<noteq> []" and "\<forall>c \<in> set X. plainChar c" and "Y \<noteq> []" and "\<forall>c \<in> set Y. plainChar c"
  shows "slideMatch (X @ ''>'' @ Y) = Some (X, Y)"
proof -
  obtain c cs where X: "X = c # cs" using assms(1) by (cases X) auto
  obtain y ys where Y: "Y = y # ys" using assms(3) by (cases Y) auto
  have nolt: "\<not> (\<exists>c \<in> set (X @ ''>'' @ Y). isLineTerminator c)"
    using assms(2,4) by (auto simp: plainChar_def isLineTerminator_def)
  have cs: "\<And>x. x \<in> set cs \<Longrightarrow> x \<noteq> CHR ''>''"
    using assms(2) X by (auto simp: plainChar_def)
  have d: "dropWhile (\<lambda>x. x \<noteq> CHR ''>'') (cs @ CHR ''>'' # y # ys) = CHR ''>'' # y # ys"
    using cs by (simp add: dropWhile_append2)
  have t: "takeWhile (\<lambda>x. x \<noteq> CHR ''>'') (cs @ CHR ''>'' # y # ys) = cs"
    using cs by (simp add: takeWhile_append2)
  show ?thesis
    unfolding slideMatch_def using nolt by (simp add: X Y d t)
qed

lemma slide_result:
  assumes "parseNoteWithModifiers X = Some fromNote" and "parseNoteWithModifiers Y = Some toNote"
  shows "parseSingleNote (X @ ''>'' @ Y) =
           Some (fromNote \<lparr> tie := True, gate := 100,
                            slideTo := Some \<lparr> to_noteName = noteName toNote,
                                               to_frequency = frequency toNote,
                                               to_velocity = velocity toNote \<rparr> \<rparr>)"
proof -
  from parseNoteWithModifiers_plain[OF assms(1)] parseNoteWithModifiers_plain[OF assms(2)]
  have "slideMatch (X @ ''>'' @ Y) = Some (X, Y)" by (intro slideMatch_join) auto
  then show ?thesis by (simp add: parseSingleNote_def assms)
qed

lemma slide_step:
  assumes "parseNoteWithModifiers X = Some fromNote" and "parseNoteWithModifiers Y = Some toNote"
  shows "parseStep (X @ ''>'' @ Y) =
           Note (fromNote \<lparr> tie := True, gate := 100,
                            slideTo := Some \<lparr> to_noteName = noteName toNote,
                                               to_frequency = frequency toNote,
                                               to_velocity = velocity toNote \<rparr> \<rparr>)"
proof -
  from parseNoteWithModifiers_plain[OF assms(1)] obtain c cs where X: "X = c # cs" and c: "isNoteLetter c"
    by (cases X) auto
  have "c \<noteq> CHR ''[''" using c by (cases rule: isNoteLetter_cases) simp_all
  then have "\<not> isChordToken (X @ ''>'' @ Y)" by (simp add: isChordToken_def X)
  moreover have "X @ ''>'' @ Y \<noteq> ''-''" by (simp add: X)
  ultimately show ?thesis
    using slide_result[OF assms] by (simp add: parseStep_def)
qed

lemma parse_bare_note:
  assumes "isNoteLetter letter" and "accidental = [] \<or> (\<exists>a. accidental = [a] \<and> isAccidental a)"
    and "isDigit octave"
  shows "\<exists>n. parseNoteWithModifiers (letter # accidental @ [octave]) = Some n \<and>
             noteName n = toLowerCase (letter # accidental @ [octave])"
proof -
  from noteMap_letter[OF assms(1)] obtain st where st: "noteMap (toLowerCase_char letter) = Some st"
    by blast
  from assms(2) show ?thesis
  proof (elim disjE exE conjE)
    assume "accidental = []"
    then show ?thesis using assms(1,3) st
      by (simp add: parseNoteWithModifiers_def matchNote_def matchOptNumber_def noteMatch_two
            noteToFrequency_def)
  next
    fix a assume "accidental = [a]" and "isAccidental a"
    then show ?thesis using assms(1,3) st
      by (simp add: parseNoteWithModifiers_def matchNote_def matchOptNumber_def noteMatch_three
            noteToFrequency_def)
  qed
qed

text \<open>
  Claim C2. A token that starts with a note letter, an optional accidental and an octave
  digit, and that the note parser accepts, gets the frequency
  \<open>440 * 2 powr ((midi - 69) / 12)\<close>, where \<open>midi = (octave + 1) * 12 + semitone\<close> and
  the semitone is the table value of the lower-cased letter, plus one for the accidental
  \<open>#\<close> and minus one for the accidental \<open>b\<close>. The bare note is always accepted. The
  token \<open>a4\<close> gets 440 exactly and \<open>c4\<close> gets 261.63 within 0.01. (The accidental is
  compared as written: an upper-case \<open>B\<close> is accepted by the pattern, since it ignores
  case, and changes the note name but not the semitone.)
\<close>

theorem note_frequency_formula:
  assumes "isNoteLetter letter"
    and "accidental = [] \<or> (\<exists>a. accidental = [a] \<and> isAccidental a)"
    and "isDigit octave"
    and "parseNoteWithModifiers (letter # accidental @ octave # rest) = Some n"
  shows "(\<exists>semitone0.
            (toLowerCase_char letter, semitone0) \<in>
               set [(CHR ''c'', 0), (CHR ''d'', 2), (CHR ''e'', 4), (CHR ''f'', 5),
                    (CHR ''g'', 7), (CHR ''a'', 9), (CHR ''b'', 11)] \<and>
            frequency n = 440 * 2 powr ((real_of_int
               ((int (digitValue octave) + 1) * 12
                 + (semitone0 + (if accidental = ''#'' then 1 else 0)
                              - (if accidental = ''b'' then 1 else 0))) - 69) / 12)) \<and>
         (\<exists>m. parseNoteWithModifiers (letter # accidental @ [octave]) = Some m) \<and>
         (\<exists>a4. parseStep ''a4'' = Note a4 \<and> frequency a4 = 440) \<and>
         (\<exists>c4. parseStep ''c4'' = Note c4 \<and> \<bar>frequency c4 - 261.63\<bar> \<le> 0.01)"
proof -
  from parseNoteWithModifiers_frequency[OF assms(4)]
  obtain l' acc' o' rest' st where
    tok: "letter # accidental @ octave # rest = l' # acc' @ o' # rest'"
    and acc': "acc' = [] \<or> (\<exists>a. acc' = [a] \<and> isAccidental a)"
    and o': "isDigit o'"
    and tab: "(toLowerCase_char l', st) \<in>
               set [(CHR ''c'', 0), (CHR ''d'', 2), (CHR ''e'', 4), (CHR ''f'', 5),
                    (CHR ''g'', 7), (CHR ''a'', 9), (CHR ''b'', 11)]"
    and fr: "frequency n = 440 * 2 powr ((real_of_int
               ((int (digitValue o') + 1) * 12
                 + (st + (if acc' = ''#'' then 1 else 0)
                              - (if acc' = ''b'' then 1 else 0))) - 69) / 12)"
    by blast
  have same: "letter = l' \<and> accidental = acc' \<and> octave = o'"
    using tok assms(2,3) acc' o' digit_not_accidental by auto
  have first: "\<exists>semitone0.
            (toLowerCase_char letter, semitone0) \<in>
               set [(CHR ''c'', 0), (CHR ''d'', 2), (CHR ''e'', 4), (CHR ''f'', 5),
                    (CHR ''g'', 7), (CHR ''a'', 9), (CHR ''b'', 11)] \<and>
            frequency n = 440 * 2 powr ((real_of_int
               ((int (digitValue octave) + 1) * 12
                 + (semitone0 + (if accidental = ''#'' then 1 else 0)
                              - (if accidental = ''b'' then 1 else 0))) - 69) / 12)"
    using same tab fr by blast
  have second: "\<exists>m. parseNoteWithModifiers (letter # accidental @ [octave]) = Some m"
    using parse_bare_note[OF assms(1-3)] by blast
  have third: "\<exists>a4. parseStep ''a4'' = Note a4 \<and> frequency a4 = 440"
    by (simp add: parse_a4)
  have fourth: "\<exists>c4. parseStep ''c4'' = Note c4 \<and> \<bar>frequency c4 - 261.63\<bar> \<le> 0.01"
    using c4_value by (simp add: parse_c4)
  from first second third fourth show ?thesis by blast
qed

lemma parse_fs3: "parseNoteWithModifiers ''f#3@80'' =
    Some \<lparr> noteName = ''f#3'', frequency = 440 * 2 powr ((real_of_int (midiNote 5 ''#'' 3) - 69) / 12),
      velocity = 80, gate = 100, tie = False, slideTo = None \<rparr>"
  by (simp add: pdefs noteToFrequency_def noteMap_def)

theorem note_frequency_formula_witness:
  "\<exists>n. parseNoteWithModifiers ''f#3@80'' = Some n \<and>
       frequency n = 440 * 2 powr ((real_of_int ((3 + 1) * 12 + (5 + 1)) - 69) / 12)"
proof -
  have l: "isNoteLetter CHR ''f''" by (simp add: isNoteLetter_def)
  have a: "''#'' = [] \<or> (\<exists>a. ''#'' = [a] \<and> isAccidental a)" by (simp add: isAccidental_def)
  have d: "isDigit CHR ''3''" by (simp add: isDigit_def)
  have p: "parseNoteWithModifiers (CHR ''f'' # ''#'' @ CHR ''3'' # ''@80'') =
      Some \<lparr> noteName = ''f#3'', frequency = 440 * 2 powr ((real_of_int (midiNote 5 ''#'' 3) - 69) / 12),
      velocity = 80, gate = 100, tie = False, slideTo = None \<rparr>"
    using parse_fs3 by simp
  from note_frequency_formula[OF l a d p]
  show ?thesis using parse_fs3 by (simp add: toLowerCase_char_def digitValue_def)
qed

text \<open>
  Claim C3. For a slide token \<open>X>Y\<close> whose two sides are valid notes, the parsed event is
  the one of \<open>X\<close> with \<open>tie\<close> set, \<open>gate\<close> equal to 100 whatever modifiers \<open>X\<close>
  carries, and a slide target holding the note name, the frequency and the velocity of
  \<open>Y\<close>; the step parser returns it as a single note.
\<close>

theorem slide_forces_tie_and_full_gate:
  assumes "parseNoteWithModifiers X = Some fromNote" and "parseNoteWithModifiers Y = Some toNote"
  shows "\<exists>n. parseSingleNote (X @ ''>'' @ Y) = Some n \<and> parseStep (X @ ''>'' @ Y) = Note n \<and>
             tie n \<and> gate n = 100 \<and>
             slideTo n = Some \<lparr> to_noteName = noteName toNote, to_frequency = frequency toNote,
                                 to_velocity = velocity toNote \<rparr> \<and>
             noteName n = noteName fromNote \<and> frequency n = frequency fromNote \<and>
             velocity n = velocity fromNote"
  using slide_result[OF assms] slide_step[OF assms] by simp

lemma parse_c4_mods: "parseNoteWithModifiers ''c4@80:50'' =
    Some \<lparr> noteName = ''c4'', frequency = 440 * 2 powr ((real_of_int (midiNote 0 [] 4) - 69) / 12),
      velocity = 80, gate = 50, tie = False, slideTo = None \<rparr>"
  by (simp add: pdefs noteToFrequency_def noteMap_def)

lemma parse_e4_mods: "parseNoteWithModifiers ''e4@90:30~'' =
    Some \<lparr> noteName = ''e4'', frequency = 440 * 2 powr ((real_of_int (midiNote 4 [] 4) - 69) / 12),
      velocity = 90, gate = 30, tie = True, slideTo = None \<rparr>"
  by (simp add: pdefs noteToFrequency_def noteMap_def)

theorem slide_forces_tie_and_full_gate_witness:
  "\<exists>n. parseSingleNote ''c4@80:50>e4@90:30~'' = Some n \<and> tie n \<and> gate n = 100 \<and> velocity n = 80 \<and>
       noteName n = ''c4'' \<and>
       (\<exists>t. slideTo n = Some t \<and> to_noteName t = ''e4'' \<and> to_velocity t = 90)"
  using slide_forces_tie_and_full_gate[OF parse_c4_mods parse_e4_mods] by auto





lemma map_filter_Nil_iff: "List.map_filter f xs = [] \<longleftrightarrow> (\<forall>x \<in> set xs. f x = None)"
  by (induction xs) (auto simp: List.map_filter_def)

lemma chord_token_not_rest_token: "isChordToken token \<Longrightarrow> token \<noteq> ''-''"
  by (auto simp: isChordToken_def)

lemma parseStep_chord:
  assumes "isChordToken token"
  shows "parseStep token =
           (if List.map_filter parseSingleNote (chordPieces token) = [] then Rest
            else Chord (List.map_filter parseSingleNote (chordPieces token)))"
  using assms chord_token_not_rest_token by (simp add: parseStep_def Let_def)



text \<open>
  Claim C5, as amended. For a chord token the notes of the parsed step are the parsed
  pieces that are valid notes, in their order, one note event for each valid piece: a
  note name written twice gives two note events of that name. The step is a rest
  exactly when no piece is a valid note, which includes the empty chord \<open>[]\<close>; otherwise
  it is a chord.
\<close>

theorem chord_keeps_every_valid_piece:
  assumes "isChordToken token"
  shows "getStepNotes (parseStep token) = List.map_filter parseSingleNote (chordPieces token) \<and>
         length (getStepNotes (parseStep token)) =
           length (filter (\<lambda>p. parseSingleNote p \<noteq> None) (chordPieces token)) \<and>
         (parseStep token = Rest \<longleftrightarrow> (\<forall>p \<in> set (chordPieces token). parseSingleNote p = None)) \<and>
         (parseStep token \<noteq> Rest \<longrightarrow> parseStep token = Chord (getStepNotes (parseStep token))) \<and>
         parseStep ''[]'' = Rest"
proof -
  let ?ns = "List.map_filter parseSingleNote (chordPieces token)"
  have p: "parseStep token = (if ?ns = [] then Rest else Chord ?ns)"
    using assms by (rule parseStep_chord)
  have a: "getStepNotes (parseStep token) = ?ns" by (simp add: p)
  have b: "length ?ns = length (filter (\<lambda>p. parseSingleNote p \<noteq> None) (chordPieces token))"
    by (simp add: List.map_filter_def)
  have c: "parseStep token = Rest \<longleftrightarrow> (\<forall>p \<in> set (chordPieces token). parseSingleNote p = None)"
    by (simp add: p map_filter_Nil_iff)
  have d: "parseStep token \<noteq> Rest \<longrightarrow> parseStep token = Chord (getStepNotes (parseStep token))"
    by (simp add: p)
  have e: "parseStep ''[]'' = Rest" by code_simp
  from a b c d e show ?thesis by simp
qed

theorem chord_keeps_every_valid_piece_witness:
  "isChordToken ''[c4,zz,e4~]'' \<and>
   map noteName (getStepNotes (parseStep ''[c4,zz,e4~]'')) = [''c4'', ''e4''] \<and>
   length (filter (\<lambda>p. parseSingleNote p \<noteq> None) (chordPieces ''[c4,zz,e4~]'')) = 2"
proof -
  have h: "isChordToken ''[c4,zz,e4~]''" by (simp add: isChordToken_def)
  have n: "map noteName (getStepNotes (parseStep ''[c4,zz,e4~]'')) = [''c4'', ''e4'']" by code_simp
  from chord_keeps_every_valid_piece[OF h] n
  have "length (filter (\<lambda>p. parseSingleNote p \<noteq> None) (chordPieces ''[c4,zz,e4~]'')) = 2"
    by (metis length_map length_Cons list.size(3) numeral_2_eq_2)
  with h n show ?thesis by simp
qed

text \<open>
  The claim C5 as it is written fails on \<open>[c4,c4]\<close>: the chord has two notes named \<open>c4\<close>.
\<close>

theorem chord_notes_unique_counterexample:
  "isChordToken ''[c4,c4]'' \<and>
   map noteName (getStepNotes (parseStep ''[c4,c4]'')) = [''c4'', ''c4''] \<and>
   \<not> distinct (map noteName (getStepNotes (parseStep ''[c4,c4]'')))"
  by code_simp



lemma parseLine_swing: "l_swing st \<le> 100 \<Longrightarrow> l_swing (parseLine line st) \<le> 100"
  by (simp add: parseLine_def Let_def split: option.splits)

lemma parseLines_swing: "l_swing st \<le> 100 \<Longrightarrow> l_swing (parseLines ls st) \<le> 100"
  by (induction ls arbitrary: st) (simp_all add: parseLines_def parseLine_swing)

lemma parse_swing_clamped: "swing (parse text s) \<le> 100"
  by (simp add: parse_def Let_def parseLines_swing initial_locals_def)

text \<open>
  Claim C4. Only \<open>swing\<close> is clamped (see \<open>parse_swing_clamped\<close>). The text
  \<open>bpm 300\<close>, \<open>swing 150\<close>, \<open>sequence c4@200:300\<close> is parsed to the tempo 300, the swing
  100, and a note of velocity 200 and gate 300; \<open>bpm 0\<close> gives the tempo 0.
\<close>

theorem parse_keeps_out_of_range_values:
  "bpm (parse ''bpm 300\<newline>swing 150\<newline>sequence c4@200:300'' new_sequencer) = 300 \<and>
   swing (parse ''bpm 300\<newline>swing 150\<newline>sequence c4@200:300'' new_sequencer) = 100 \<and>
   map (\<lambda>n. (velocity n, gate n))
     (concat (map getStepNotes (concat (map steps
        (tracks (parse ''bpm 300\<newline>swing 150\<newline>sequence c4@200:300'' new_sequencer)))))) =
     [(200, 300)] \<and>
   bpm (parse ''bpm 0'' new_sequencer) = 0"
  by code_simp

section \<open>Properties of the step scheduler\<close>

lemma stopLoop_kept:
  "fst (stopLoop hasStop prevBy curBy tbl) = filter (\<lambda>e. shouldContinue prevBy curBy (fst e)) tbl"
  by (induction tbl) (auto split: prod.splits)

lemma stopLoop_cmds:
  "snd (stopLoop hasStop prevBy curBy tbl) =
     (if hasStop then map (\<lambda>e. Stop (snd e)) (filter (\<lambda>e. \<not> shouldContinue prevBy curBy (fst e)) tbl)
      else [])"
  by (induction tbl) (auto split: prod.splits)

lemma notesByName_Nil: "notesByName [] = (\<lambda>k. None)"
  by (simp add: notesByName_def)

lemma notesByName_snoc: "notesByName (ns @ [n]) = (notesByName ns)(noteName n \<mapsto> n)"
  by (simp add: notesByName_def)


lemma notesByName_Some: "notesByName ns k = Some n \<Longrightarrow> n \<in> set ns \<and> noteName n = k"
  by (induction ns rule: rev_induct) (auto simp: notesByName_Nil notesByName_snoc split: if_splits)

lemma notesByName_unique:
  "distinct (map noteName ns) \<Longrightarrow> n \<in> set ns \<Longrightarrow> notesByName ns (noteName n) = Some n"
  by (induction ns rule: rev_induct) (auto simp: notesByName_Nil notesByName_snoc image_iff)

lemma shouldContinue_no_prev: "shouldContinue (\<lambda>k. None) curBy name = False"
  by (simp add: shouldContinue_def)

lemma table_set_new: "\<not> table_has tbl name \<Longrightarrow> table_set tbl name i = tbl @ [(name, i)]"
  by (simp add: table_set_def)

lemma startLoop_cmds_Start:
  "c \<in> set (snd (startLoop trig sd oname ns tbl hist)) \<Longrightarrow>
     \<exists>nt \<in> set ns. c = Start (startArgs sd oname nt) \<and> \<not> table_has tbl (noteName nt)"
proof (induction ns arbitrary: tbl hist)
  case Nil
  then show ?case by simp
next
  case (Cons nt rest)
  show ?case
  proof (cases "table_has tbl (noteName nt)")
    case True
    with Cons show ?thesis by auto
  next
    case False
    define tbl' where "tbl' = (case trig hist (startArgs sd oname nt) of
                          Some i \<Rightarrow> if tie nt then table_set tbl (noteName nt) i else tbl
                        | None \<Rightarrow> tbl)"
    have sub: "table_has tbl k \<Longrightarrow> table_has tbl' k" for k
      using False by (auto simp: tbl'_def table_set_new table_has_def split: option.splits)
    from Cons.prems False
    have "c = Start (startArgs sd oname nt) \<or>
          c \<in> set (snd (startLoop trig sd oname rest tbl' (hist @ [Start (startArgs sd oname nt)])))"
      by (auto simp: Let_def tbl'_def split: prod.splits)
    then show ?thesis
    proof
      assume "c = Start (startArgs sd oname nt)"
      with False show ?thesis by auto
    next
      assume "c \<in> set (snd (startLoop trig sd oname rest tbl' (hist @ [Start (startArgs sd oname nt)])))"
      from Cons.IH[OF this] obtain n where "n \<in> set rest" "c = Start (startArgs sd oname n)"
        "\<not> table_has tbl' (noteName n)" by blast
      with sub show ?thesis by auto
    qed
  qed
qed

lemma startLoop_table:
  "\<exists>new. fst (startLoop trig sd oname ns tbl hist) = tbl @ new \<and>
     (\<forall>e \<in> set new. \<not> table_has tbl (fst e) \<and>
        (\<exists>nt \<in> set ns. \<exists>pre post.
            snd (startLoop trig sd oname ns tbl hist) = pre @ Start (startArgs sd oname nt) # post \<and>
            noteName nt = fst e \<and> tie nt \<and>
            trig (hist @ pre) (startArgs sd oname nt) = Some (snd e))) \<and>
     (distinct (map fst tbl) \<longrightarrow> distinct (map fst (tbl @ new)))"
proof (induction ns arbitrary: tbl hist)
  case Nil
  then show ?case by simp
next
  case (Cons nt rest)
  show ?case
  proof (cases "table_has tbl (noteName nt)")
    case True
    from Cons.IH[of tbl hist] obtain new where
      n1: "fst (startLoop trig sd oname rest tbl hist) = tbl @ new" and
      n2: "\<forall>e \<in> set new. \<not> table_has tbl (fst e) \<and>
        (\<exists>nt \<in> set rest. \<exists>pre post.
            snd (startLoop trig sd oname rest tbl hist) = pre @ Start (startArgs sd oname nt) # post \<and>
            noteName nt = fst e \<and> tie nt \<and>
            trig (hist @ pre) (startArgs sd oname nt) = Some (snd e))" and
      n3: "distinct (map fst tbl) \<longrightarrow> distinct (map fst (tbl @ new))" by blast
    show ?thesis
      apply (rule exI[of _ new])
      using True n1 n2 n3 by auto
  next
    case False
    let ?a = "startArgs sd oname nt"
    define add where "add = (case trig hist ?a of
                          Some i \<Rightarrow> if tie nt then [(noteName nt, i)] else []
                        | None \<Rightarrow> [])"
    define tbl' where "tbl' = tbl @ add"
    have tbl'_eq: "(case trig hist ?a of
                          Some i \<Rightarrow> if tie nt then table_set tbl (noteName nt) i else tbl
                        | None \<Rightarrow> tbl) = tbl'"
      using False by (auto simp: tbl'_def add_def table_set_new split: option.splits)
    have unfold: "startLoop trig sd oname (nt # rest) tbl hist =
        (fst (startLoop trig sd oname rest tbl' (hist @ [Start ?a])),
         Start ?a # snd (startLoop trig sd oname rest tbl' (hist @ [Start ?a])))"
      using False by (simp add: Let_def tbl'_eq split: prod.splits)
    from Cons.IH[of tbl' "hist @ [Start ?a]"] obtain new where
      n1: "fst (startLoop trig sd oname rest tbl' (hist @ [Start ?a])) = tbl' @ new" and
      n2: "\<forall>e \<in> set new. \<not> table_has tbl' (fst e) \<and>
        (\<exists>n \<in> set rest. \<exists>pre post.
            snd (startLoop trig sd oname rest tbl' (hist @ [Start ?a])) = pre @ Start (startArgs sd oname n) # post \<and>
            noteName n = fst e \<and> tie n \<and>
            trig ((hist @ [Start ?a]) @ pre) (startArgs sd oname n) = Some (snd e))" and
      n3: "distinct (map fst tbl') \<longrightarrow> distinct (map fst (tbl' @ new))" by blast
    have a1: "fst (startLoop trig sd oname (nt # rest) tbl hist) = tbl @ (add @ new)"
      by (simp only: unfold fst_conv n1) (simp add: tbl'_def)
    have a2: "\<not> table_has tbl (fst e) \<and>
        (\<exists>n \<in> set (nt # rest). \<exists>pre post.
            snd (startLoop trig sd oname (nt # rest) tbl hist) = pre @ Start (startArgs sd oname n) # post \<and>
            noteName n = fst e \<and> tie n \<and>
            trig (hist @ pre) (startArgs sd oname n) = Some (snd e))" if e: "e \<in> set (add @ new)" for e
    proof (cases "e \<in> set add")
      case True
      then have ee: "e = (noteName nt, the (trig hist ?a))" and t: "tie nt"
        and tr: "trig hist ?a = Some (snd e)"
        by (auto simp: add_def split: option.splits if_splits) (metis option.sel)
      have "snd (startLoop trig sd oname (nt # rest) tbl hist) =
              [] @ Start ?a # snd (startLoop trig sd oname rest tbl' (hist @ [Start ?a]))"
        by (simp only: unfold snd_conv append_Nil)
      moreover have "trig (hist @ []) ?a = Some (snd e)" using tr by simp
      ultimately show ?thesis using False ee t by (metis fst_conv list.set_intros(1))
    next
      case False
      with e have en: "e \<in> set new" by simp
      from n2 en obtain n pre post where nn: "n \<in> set rest"
        and sp: "snd (startLoop trig sd oname rest tbl' (hist @ [Start ?a])) = pre @ Start (startArgs sd oname n) # post"
        and nm: "noteName n = fst e" and tn: "tie n"
        and tr: "trig ((hist @ [Start ?a]) @ pre) (startArgs sd oname n) = Some (snd e)"
        and nh: "\<not> table_has tbl' (fst e)" by blast
      have "snd (startLoop trig sd oname (nt # rest) tbl hist) = (Start ?a # pre) @ Start (startArgs sd oname n) # post"
        by (simp only: unfold snd_conv sp append_Cons)
      moreover have "trig (hist @ (Start ?a # pre)) (startArgs sd oname n) = Some (snd e)"
        using tr by simp
      moreover have "\<not> table_has tbl (fst e)" using nh by (auto simp: tbl'_def table_has_def)
      ultimately show ?thesis using nn nm tn by (metis list.set_intros(2))
    qed
    have a3: "distinct (map fst tbl) \<longrightarrow> distinct (map fst (tbl @ (add @ new)))"
    proof
      assume "distinct (map fst tbl)"
      then have "distinct (map fst tbl')"
        using \<open>\<not> table_has tbl (noteName nt)\<close>
        by (auto simp: tbl'_def add_def table_has_def split: option.splits)
      with n3 show "distinct (map fst (tbl @ (add @ new)))" by (simp add: tbl'_def)
    qed
    show ?thesis
      apply (rule exI[of _ "add @ new"])
      using a1 a2 a3 by blast
  qed
qed

lemma startLoop_starts_missing:
  "nt \<in> set ns \<Longrightarrow> \<not> table_has tbl (noteName nt) \<Longrightarrow>
     \<exists>n \<in> set ns. noteName n = noteName nt \<and>
        Start (startArgs sd oname n) \<in> set (snd (startLoop trig sd oname ns tbl hist))"
proof (induction ns arbitrary: tbl hist)
  case Nil
  then show ?case by simp
next
  case (Cons x rest)
  show ?case
  proof (cases "table_has tbl (noteName x)")
    case True
    with Cons.prems have "nt \<in> set rest" by auto
    from Cons.IH[OF this Cons.prems(2), of hist] True show ?thesis by auto
  next
    case False
    let ?a = "startArgs sd oname x"
    define tbl' where "tbl' = (case trig hist ?a of
                          Some i \<Rightarrow> if tie x then table_set tbl (noteName x) i else tbl
                        | None \<Rightarrow> tbl)"
    have unfold: "snd (startLoop trig sd oname (x # rest) tbl hist) =
         Start ?a # snd (startLoop trig sd oname rest tbl' (hist @ [Start ?a]))"
      using False by (simp add: Let_def tbl'_def split: prod.splits)
    show ?thesis
    proof (cases "noteName x = noteName nt")
      case True
      then show ?thesis using unfold by auto
    next
      case diff: False
      with Cons.prems have nr: "nt \<in> set rest" by auto
      have "\<not> table_has tbl' (noteName nt)"
        using Cons.prems(2) diff False
        by (auto simp: tbl'_def table_set_new table_has_def split: option.splits)
      from Cons.IH[OF nr this, of "hist @ [Start ?a]"] show ?thesis using unfold by auto
    qed
  qed
qed

lemma stopsOf_append: "stopsOf (xs @ ys) = stopsOf xs @ stopsOf ys"
  by (simp add: stopsOf_def)


lemma stopsOf_Stops: "stopsOf (map (\<lambda>e. Stop (f e)) xs) = map f xs"
  by (induction xs) (simp_all add: stopsOf_def)


lemma startLoop_stopsOf: "stopsOf (snd (startLoop trig sd oname ns tbl hist)) = []"
proof -
  have "\<forall>c \<in> set (snd (startLoop trig sd oname ns tbl hist)). \<exists>a. c = Start a"
    using startLoop_cmds_Start by blast
  then show ?thesis
    by (induction "snd (startLoop trig sd oname ns tbl hist)") (auto simp: stopsOf_def)
qed


lemma stopsOf_mem: "i \<in> set (stopsOf cmds) \<longleftrightarrow> Stop i \<in> set cmds"
  by (induction cmds) (auto simp: stopsOf_def split: command.splits)

lemma processTrack_eq:
  "processTrack trig sd hs cs t tbl hist =
     (fst (startLoop trig sd (oscillator t) (getStepNotes (stepAt t cs))
             (filter (\<lambda>e. continues t cs (fst e)) tbl)
             (hist @ snd (stopLoop hs (notesByName (getStepNotes (prevStepAt t cs)))
                                     (notesByName (getStepNotes (stepAt t cs))) tbl))),
      snd (stopLoop hs (notesByName (getStepNotes (prevStepAt t cs)))
                       (notesByName (getStepNotes (stepAt t cs))) tbl)
      @ snd (startLoop trig sd (oscillator t) (getStepNotes (stepAt t cs))
             (filter (\<lambda>e. continues t cs (fst e)) tbl)
             (hist @ snd (stopLoop hs (notesByName (getStepNotes (prevStepAt t cs)))
                                     (notesByName (getStepNotes (stepAt t cs))) tbl))))"
proof -
  have k: "fst (stopLoop hs (notesByName (getStepNotes (prevStepAt t cs)))
                       (notesByName (getStepNotes (stepAt t cs))) tbl)
           = filter (\<lambda>e. continues t cs (fst e)) tbl"
    by (simp add: stopLoop_kept continues_def)
  show ?thesis
    unfolding processTrack_def Let_def k[symmetric]
    by (simp add: split_beta)
qed

lemma processTrack_stops:
  "stopsOf (snd (processTrack trig sd hs cs t tbl hist)) =
     (if hs then map snd (filter (\<lambda>e. \<not> continues t cs (fst e)) tbl) else [])"
  by (simp add: processTrack_eq stopsOf_append startLoop_stopsOf stopLoop_cmds stopsOf_Stops
        continues_def) (simp add: stopsOf_def)


lemma processTrack_table:
  "\<exists>new. fst (processTrack trig sd hs cs t tbl hist) = filter (\<lambda>e. continues t cs (fst e)) tbl @ new \<and>
     (\<forall>e \<in> set new. \<not> (table_has tbl (fst e) \<and> continues t cs (fst e)) \<and>
        (\<exists>nt \<in> set (getStepNotes (stepAt t cs)). \<exists>pre post.
            snd (processTrack trig sd hs cs t tbl hist) = pre @ Start (startArgs sd (oscillator t) nt) # post \<and>
            noteName nt = fst e \<and> tie nt \<and>
            trig (hist @ pre) (startArgs sd (oscillator t) nt) = Some (snd e))) \<and>
     (distinct (map fst tbl) \<longrightarrow> distinct (map fst (fst (processTrack trig sd hs cs t tbl hist))))"
proof -
  let ?stops = "snd (stopLoop hs (notesByName (getStepNotes (prevStepAt t cs)))
                       (notesByName (getStepNotes (stepAt t cs))) tbl)"
  let ?kept = "filter (\<lambda>e. continues t cs (fst e)) tbl"
  let ?ns = "getStepNotes (stepAt t cs)"
  let ?sl = "startLoop trig sd (oscillator t) ?ns ?kept (hist @ ?stops)"
  from startLoop_table[of trig sd "oscillator t" ?ns ?kept "hist @ ?stops"]
  obtain new where
    n1: "fst ?sl = ?kept @ new" and
    n2: "\<forall>e \<in> set new. \<not> table_has ?kept (fst e) \<and>
        (\<exists>nt \<in> set ?ns. \<exists>pre post.
            snd ?sl = pre @ Start (startArgs sd (oscillator t) nt) # post \<and>
            noteName nt = fst e \<and> tie nt \<and>
            trig ((hist @ ?stops) @ pre) (startArgs sd (oscillator t) nt) = Some (snd e))" and
    n3: "distinct (map fst ?kept) \<longrightarrow> distinct (map fst (?kept @ new))" by blast
  have p: "processTrack trig sd hs cs t tbl hist = (fst ?sl, ?stops @ snd ?sl)"
    by (rule processTrack_eq)
  have a2: "\<not> (table_has tbl (fst e) \<and> continues t cs (fst e)) \<and>
        (\<exists>nt \<in> set ?ns. \<exists>pre post.
            snd (processTrack trig sd hs cs t tbl hist) = pre @ Start (startArgs sd (oscillator t) nt) # post \<and>
            noteName nt = fst e \<and> tie nt \<and>
            trig (hist @ pre) (startArgs sd (oscillator t) nt) = Some (snd e))" if e: "e \<in> set new" for e
  proof -
    from n2 e obtain nt pre post where nt: "nt \<in> set ?ns"
      and sp: "snd ?sl = pre @ Start (startArgs sd (oscillator t) nt) # post"
      and nm: "noteName nt = fst e" and tn: "tie nt"
      and tr: "trig ((hist @ ?stops) @ pre) (startArgs sd (oscillator t) nt) = Some (snd e)"
      and nh: "\<not> table_has ?kept (fst e)" by blast
    have "snd (processTrack trig sd hs cs t tbl hist) = (?stops @ pre) @ Start (startArgs sd (oscillator t) nt) # post"
      by (simp only: p snd_conv sp append_assoc)
    moreover have "trig (hist @ (?stops @ pre)) (startArgs sd (oscillator t) nt) = Some (snd e)"
      using tr by simp
    moreover have "\<not> (table_has tbl (fst e) \<and> continues t cs (fst e))"
      using nh by (auto simp: table_has_def)
    ultimately show ?thesis using nt nm tn by blast
  qed
  have a3: "distinct (map fst tbl) \<longrightarrow> distinct (map fst (fst (processTrack trig sd hs cs t tbl hist)))"
    using n3 n1 by (simp add: p distinct_map_filter)
  have a1: "fst (processTrack trig sd hs cs t tbl hist) = ?kept @ new"
    by (simp only: p fst_conv n1)
  show ?thesis
    apply (rule exI[of _ new])
    using a1 a2 a3 by blast
qed

lemma runTracks_Cons:
  "runTracks trig sd hs cs (t # ts) an hist =
     (fst (runTracks trig sd hs cs ts
             (an(trackKey t \<mapsto> fst (processTrack trig sd hs cs t (tableOf an (trackKey t)) hist)))
             (hist @ snd (processTrack trig sd hs cs t (tableOf an (trackKey t)) hist))),
      snd (processTrack trig sd hs cs t (tableOf an (trackKey t)) hist) @
      snd (runTracks trig sd hs cs ts
             (an(trackKey t \<mapsto> fst (processTrack trig sd hs cs t (tableOf an (trackKey t)) hist)))
             (hist @ snd (processTrack trig sd hs cs t (tableOf an (trackKey t)) hist))))"
  by (simp add: tableOf_def Let_def split_beta)

lemma runTracks_other_key:
  "k \<notin> trackKey ` set ts \<Longrightarrow> fst (runTracks trig sd hs cs ts an hist) k = an k"
proof (induction ts arbitrary: an hist)
  case Nil
  then show ?case by simp
next
  case (Cons t ts)
  then show ?case by (simp only: runTracks_Cons fst_conv) auto
qed




lemma continues_step0: "continues t (Some 0) name = False"
  by (simp add: continues_def prevStepAt_def notesByName_Nil shouldContinue_def)

lemma processTrack_step0_stops:
  "stopsOf (snd (processTrack trig sd True (Some 0) t tbl hist)) = map snd tbl"
  by (simp add: processTrack_stops continues_step0)

lemma runTracks_step0_stops:
  assumes "t \<in> set ts" and "e \<in> set (tableOf an (trackKey t))"
  shows "Stop (snd e) \<in> set (snd (runTracks trig sd True (Some 0) ts an hist))"
  using assms
proof (induction ts arbitrary: an hist)
  case Nil
  then show ?case by simp
next
  case (Cons u ts)
  let ?p = "processTrack trig sd True (Some 0) u (tableOf an (trackKey u)) hist"
  let ?an' = "an(trackKey u \<mapsto> fst ?p)"
  have sndR: "snd (runTracks trig sd True (Some 0) (u # ts) an hist) =
                snd ?p @ snd (runTracks trig sd True (Some 0) ts ?an' (hist @ snd ?p))"
    by (simp only: runTracks_Cons snd_conv)
  show ?case
  proof (cases "trackKey t = trackKey u")
    case True
    with Cons.prems have "snd e \<in> set (stopsOf (snd ?p))"
      by (simp add: processTrack_step0_stops)
    then have "Stop (snd e) \<in> set (snd ?p)" by (simp add: stopsOf_mem)
    then show ?thesis by (simp only: sndR set_append Un_iff) simp
  next
    case False
    with Cons.prems have tin: "t \<in> set ts" by auto
    have "tableOf ?an' (trackKey t) = tableOf an (trackKey t)"
      using False by (simp add: tableOf_def)
    with Cons.prems have "e \<in> set (tableOf ?an' (trackKey t))" by simp
    from Cons.IH[OF tin this] show ?thesis by (simp only: sndR set_append Un_iff) simp
  qed
qed

lemma runTracks_step0_starts:
  assumes "t \<in> set ts" and "nt \<in> set (getStepNotes (stepAt t (Some 0)))"
  shows "\<exists>n \<in> set (getStepNotes (stepAt t (Some 0))). noteName n = noteName nt \<and>
           Start (startArgs sd (oscillator t) n) \<in> set (snd (runTracks trig sd hs (Some 0) ts an hist))"
  using assms
proof (induction ts arbitrary: an hist)
  case Nil
  then show ?case by simp
next
  case (Cons u ts)
  let ?p = "processTrack trig sd hs (Some 0) u (tableOf an (trackKey u)) hist"
  let ?an' = "an(trackKey u \<mapsto> fst ?p)"
  have sndR: "snd (runTracks trig sd hs (Some 0) (u # ts) an hist) =
                snd ?p @ snd (runTracks trig sd hs (Some 0) ts ?an' (hist @ snd ?p))"
    by (simp only: runTracks_Cons snd_conv)
  show ?case
  proof (cases "t = u")
    case True
    have nh: "\<not> table_has (filter (\<lambda>e. continues u (Some 0) (fst e)) (tableOf an (trackKey u))) (noteName nt)"
      by (simp add: continues_step0 table_has_def)
    from Cons.prems True have "nt \<in> set (getStepNotes (stepAt u (Some 0)))" by simp
    from startLoop_starts_missing[OF this nh]
    obtain n where "n \<in> set (getStepNotes (stepAt u (Some 0)))" "noteName n = noteName nt"
      "Start (startArgs sd (oscillator u) n) \<in> set (snd ?p)"
      by (simp only: processTrack_eq snd_conv set_append Un_iff) blast
    then show ?thesis using True by (simp only: sndR set_append Un_iff) blast
  next
    case False
    with Cons.prems have tin: "t \<in> set ts" by auto
    from Cons.IH[OF tin Cons.prems(2)] show ?thesis by (simp only: sndR set_append Un_iff) blast
  qed
qed

lemma runTracks_step0_fresh:
  assumes "t \<in> set ts" and "e \<in> set (tableOf (fst (runTracks trig sd hs (Some 0) ts an hist)) (trackKey t))"
  shows "\<exists>u \<in> set ts. \<exists>nt \<in> set (getStepNotes (stepAt u (Some 0))). \<exists>pre post.
           snd (runTracks trig sd hs (Some 0) ts an hist) = pre @ Start (startArgs sd (oscillator u) nt) # post \<and>
           trackKey u = trackKey t \<and> noteName nt = fst e \<and> tie nt \<and>
           trig (hist @ pre) (startArgs sd (oscillator u) nt) = Some (snd e)"
  using assms
proof (induction ts arbitrary: an hist t)
  case Nil
  then show ?case by simp
next
  case (Cons u ts)
  let ?p = "processTrack trig sd hs (Some 0) u (tableOf an (trackKey u)) hist"
  let ?an' = "an(trackKey u \<mapsto> fst ?p)"
  let ?r = "runTracks trig sd hs (Some 0) ts ?an' (hist @ snd ?p)"
  have sndR: "snd (runTracks trig sd hs (Some 0) (u # ts) an hist) = snd ?p @ snd ?r"
    by (simp only: runTracks_Cons snd_conv)
  have fstR: "fst (runTracks trig sd hs (Some 0) (u # ts) an hist) = fst ?r"
    by (simp only: runTracks_Cons fst_conv)
  show ?case
  proof (cases "trackKey t \<in> trackKey ` set ts")
    case True
    then obtain t2 where t2: "t2 \<in> set ts" and k2: "trackKey t2 = trackKey t" by auto
    from Cons.prems(2) have "e \<in> set (tableOf (fst ?r) (trackKey t2))"
      by (simp only: fstR k2)
    from Cons.IH[OF t2 this] obtain v nt pre post where
      v: "v \<in> set ts" and nt: "nt \<in> set (getStepNotes (stepAt v (Some 0)))"
      and sp: "snd ?r = pre @ Start (startArgs sd (oscillator v) nt) # post"
      and kv: "trackKey v = trackKey t2" and nm: "noteName nt = fst e" and tn: "tie nt"
      and tr: "trig ((hist @ snd ?p) @ pre) (startArgs sd (oscillator v) nt) = Some (snd e)"
      by blast
    have "snd (runTracks trig sd hs (Some 0) (u # ts) an hist) =
            (snd ?p @ pre) @ Start (startArgs sd (oscillator v) nt) # post"
      by (simp only: sndR sp append_assoc)
    moreover have "trig (hist @ (snd ?p @ pre)) (startArgs sd (oscillator v) nt) = Some (snd e)"
      using tr by simp
    moreover have "v \<in> set (u # ts)" using v by simp
    moreover have "trackKey v = trackKey t" using kv k2 by simp
    ultimately show ?thesis using nt nm tn by blast
  next
    case False
    with Cons.prems(1) have tu: "t = u" by auto
    have "fst ?r (trackKey u) = Some (fst ?p)"
      using runTracks_other_key[of "trackKey u" ts] False tu by simp
    with Cons.prems(2) have ein: "e \<in> set (fst ?p)"
      by (simp only: fstR tu) (simp add: tableOf_def)
    from processTrack_table[of trig sd hs "Some 0" u "tableOf an (trackKey u)" hist]
    obtain new where
      n1: "fst ?p = filter (\<lambda>e. continues u (Some 0) (fst e)) (tableOf an (trackKey u)) @ new"
      and n2: "\<forall>e \<in> set new.
        (\<exists>nt \<in> set (getStepNotes (stepAt u (Some 0))). \<exists>pre post.
            snd ?p = pre @ Start (startArgs sd (oscillator u) nt) # post \<and>
            noteName nt = fst e \<and> tie nt \<and>
            trig (hist @ pre) (startArgs sd (oscillator u) nt) = Some (snd e))"
      by blast
    from n1 ein have "e \<in> set new" by (simp add: continues_step0)
    with n2 obtain nt pre post where
      nt: "nt \<in> set (getStepNotes (stepAt u (Some 0)))"
      and sp: "snd ?p = pre @ Start (startArgs sd (oscillator u) nt) # post"
      and nm: "noteName nt = fst e" and tn: "tie nt"
      and tr: "trig (hist @ pre) (startArgs sd (oscillator u) nt) = Some (snd e)"
      by blast
    have "snd (runTracks trig sd hs (Some 0) (u # ts) an hist) =
            pre @ Start (startArgs sd (oscillator u) nt) # (post @ snd ?r)"
      by (simp only: sndR sp append_assoc append_Cons)
    moreover have "u \<in> set (u # ts)" by simp
    ultimately show ?thesis using nt nm tn tr tu by blast
  qed
qed

lemma executeStep_eq:
  "executeStep trig sd (s, hist) =
     (s \<lparr> activeNotes := fst (runTracks trig sd (stopNote_set s) (currentStep s) (tracks s) (activeNotes s) hist) \<rparr>,
      hist @ snd (runTracks trig sd (stopNote_set s) (currentStep s) (tracks s) (activeNotes s) hist))"
  by (simp add: executeStep_def Let_def split_beta)

lemma swingDelay_even: "currentStep s = Some 0 \<Longrightarrow> swingDelay s sd = 0"
  by (simp add: swingDelay_def)

text \<open>
  Claim C10. When a step is played with the step cursor at 0, which is the case when
  playback starts and whenever the cursor wraps, the step runs at once (step 0 is never
  swing-delayed) and the previous step of every track is a rest. So for every track, every
  entry that its table holds when the tick begins is stopped; every voice of step 0 is
  started by a new call of \<open>triggerNote\<close>, whatever the last step of the track was; and
  every entry the table holds after the tick was put there by a tied voice started in
  this very tick, with the handle that \<open>triggerNote\<close> returned for it. No voice is carried
  over from the last step to step 0.
\<close>

theorem wrap_breaks_every_tie:
  assumes "currentStep s = Some 0" and "stopNote_set s"
  shows "\<exists>an' cmds.
     playCurrentStep trig sd (s, hist) = (s \<lparr> activeNotes := an' \<rparr>, hist @ cmds) \<and>
     (\<forall>t \<in> set (tracks s).
        prevStepAt t (currentStep s) = Rest \<and>
        (\<forall>e \<in> set (tableOf (activeNotes s) (trackKey t)). Stop (snd e) \<in> set cmds) \<and>
        (\<forall>nt \<in> set (getStepNotes (stepAt t (currentStep s))).
            \<exists>n \<in> set (getStepNotes (stepAt t (currentStep s))).
               noteName n = noteName nt \<and> Start (startArgs sd (oscillator t) n) \<in> set cmds) \<and>
        (\<forall>e \<in> set (tableOf an' (trackKey t)).
            \<exists>u \<in> set (tracks s). \<exists>nt \<in> set (getStepNotes (stepAt u (currentStep s))). \<exists>pre post.
               cmds = pre @ Start (startArgs sd (oscillator u) nt) # post \<and>
               trackKey u = trackKey t \<and> noteName nt = fst e \<and> tie nt \<and>
               trig (hist @ pre) (startArgs sd (oscillator u) nt) = Some (snd e)))"
proof -
  let ?r = "runTracks trig sd True (Some 0) (tracks s) (activeNotes s) hist"
  have p: "playCurrentStep trig sd (s, hist) = (s \<lparr> activeNotes := fst ?r \<rparr>, hist @ snd ?r)"
    using assms by (simp add: playCurrentStep_def swingDelay_even executeStep_eq)
  have body: "prevStepAt t (currentStep s) = Rest \<and>
        (\<forall>e \<in> set (tableOf (activeNotes s) (trackKey t)). Stop (snd e) \<in> set (snd ?r)) \<and>
        (\<forall>nt \<in> set (getStepNotes (stepAt t (currentStep s))).
            \<exists>n \<in> set (getStepNotes (stepAt t (currentStep s))).
               noteName n = noteName nt \<and> Start (startArgs sd (oscillator t) n) \<in> set (snd ?r)) \<and>
        (\<forall>e \<in> set (tableOf (fst ?r) (trackKey t)).
            \<exists>u \<in> set (tracks s). \<exists>nt \<in> set (getStepNotes (stepAt u (currentStep s))). \<exists>pre post.
               snd ?r = pre @ Start (startArgs sd (oscillator u) nt) # post \<and>
               trackKey u = trackKey t \<and> noteName nt = fst e \<and> tie nt \<and>
               trig (hist @ pre) (startArgs sd (oscillator u) nt) = Some (snd e))"
    if t: "t \<in> set (tracks s)" for t
  proof (intro conjI ballI)
    show "prevStepAt t (currentStep s) = Rest" using assms(1) by (simp add: prevStepAt_def)
  next
    fix e assume "e \<in> set (tableOf (activeNotes s) (trackKey t))"
    from runTracks_step0_stops[OF t this] show "Stop (snd e) \<in> set (snd ?r)" .
  next
    fix nt assume "nt \<in> set (getStepNotes (stepAt t (currentStep s)))"
    then have "nt \<in> set (getStepNotes (stepAt t (Some 0)))" using assms(1) by simp
    from runTracks_step0_starts[OF t this]
    show "\<exists>n \<in> set (getStepNotes (stepAt t (currentStep s))).
            noteName n = noteName nt \<and> Start (startArgs sd (oscillator t) n) \<in> set (snd ?r)"
      using assms(1) by simp
  next
    fix e assume "e \<in> set (tableOf (fst ?r) (trackKey t))"
    from runTracks_step0_fresh[OF t this]
    show "\<exists>u \<in> set (tracks s). \<exists>nt \<in> set (getStepNotes (stepAt u (currentStep s))). \<exists>pre post.
               snd ?r = pre @ Start (startArgs sd (oscillator u) nt) # post \<and>
               trackKey u = trackKey t \<and> noteName nt = fst e \<and> tie nt \<and>
               trig (hist @ pre) (startArgs sd (oscillator u) nt) = Some (snd e)"
      using assms(1) by simp
  qed
  show ?thesis
    by (rule exI[of _ "fst ?r"], rule exI[of _ "snd ?r"]) (use p body in blast)
qed

theorem wrap_breaks_every_tie_witness:
  "currentStep wrap_example = Some 0 \<and> stopNote_set wrap_example \<and>
   Stop 7 \<in> set (snd (playCurrentStep (\<lambda>h a. Some (Suc (length h))) 125 (wrap_example, [])))"
proof -
  have c: "currentStep wrap_example = Some 0" and h: "stopNote_set wrap_example"
    by (simp_all add: wrap_example_def new_sequencer_def)
  have e: "(''c4'', 7) \<in> set (tableOf (activeNotes wrap_example)
              (trackKey \<lparr> oscillator = Some ''lead'', steps = [parseStep ''c4~'', parseStep ''c4~''] \<rparr>))"
    by (simp add: wrap_example_def new_sequencer_def tableOf_def trackKey_def)
  have t: "\<lparr> oscillator = Some ''lead'', steps = [parseStep ''c4~'', parseStep ''c4~''] \<rparr>
             \<in> set (tracks wrap_example)"
    by (simp add: wrap_example_def new_sequencer_def)
  from wrap_breaks_every_tie[OF c h, of "\<lambda>h a. Some (Suc (length h))" 125 "[]"]
  obtain an' cmds where
    p: "playCurrentStep (\<lambda>h a. Some (Suc (length h))) 125 (wrap_example, []) =
          (wrap_example \<lparr> activeNotes := an' \<rparr>, [] @ cmds)"
    and all: "\<forall>t \<in> set (tracks wrap_example).
        (\<forall>e \<in> set (tableOf (activeNotes wrap_example) (trackKey t)). Stop (snd e) \<in> set cmds)"
    by blast
  from all t e have "Stop 7 \<in> set cmds" by fastforce
  with p c h show ?thesis by simp
qed




















section \<open>Properties of the synthesis engine and the distortion stage\<close>

lemma makeDistortionCurve_length: "length (makeDistortionCurve drive) = 44100"
  by (simp add: makeDistortionCurve_def Let_def)

lemma makeDistortionCurve_nth:
  assumes "i < 44100"
  shows "makeDistortionCurve drive ! i =
     (if drive / 100 = 0 then real i * 2 / 44100 - 1
      else (real i * 2 / 44100 - 1) * (1 - drive / 100)
           + drive / 100 * (tanh (drive / 100 * 50 * (real i * 2 / 44100 - 1)) / tanh (drive / 100 * 50)))"
  using assms by (simp add: makeDistortionCurve_def Let_def ac_simps)

text \<open>
  Claim C8. The curve built from \<open>drive\<close> has 44100 samples. Sample \<open>i\<close> is taken at the
  input \<open>x = 2 * i / 44100 - 1\<close>, which lies in the interval from -1 to 1, and with
  \<open>amount = drive / 100\<close> and \<open>k = amount * 50\<close> it is
  \<open>x * (1 - amount) + amount * tanh (k * x) / tanh k\<close>, or \<open>x\<close> itself when \<open>amount\<close> is
  zero. The wet gain is \<open>mix / 100\<close>, the dry gain \<open>1 - mix / 100\<close>, and both paths are
  connected to the output gain, whose value is \<open>1 - drive / 100 * 0.5\<close>.
\<close>

theorem distortion_curve_and_gains:
  assumes "i < 44100"
  shows "(let x = real i * 2 / 44100 - 1; amount = drive / 100; k = amount * 50
          in - 1 \<le> x \<and> x < 1 \<and>
             makeDistortionCurve drive ! i =
               (if amount = 0 then x else x * (1 - amount) + amount * (tanh (k * x) / tanh k))) \<and>
         length (makeDistortionCurve drive) = 44100 \<and>
         (\<exists>d. createDistortionNode (Some (Some drive, Some mix)) = Some d \<and>
              curve d = makeDistortionCurve drive \<and>
              wetGain_value d = mix / 100 \<and> dryGain_value d = 1 - mix / 100 \<and>
              outputGain_value d = 1 - drive / 100 * 0.5 \<and>
              connections d = [(InputGain, DryGain), (DryGain, OutputGain),
                               (InputGain, Waveshaper), (Waveshaper, WetGain),
                               (WetGain, OutputGain)])"
proof -
  have x: "- 1 \<le> real i * 2 / 44100 - 1 \<and> real i * 2 / 44100 - 1 < 1"
    using assms by simp
  show ?thesis
    using x makeDistortionCurve_nth[OF assms, of drive]
    by (simp add: Let_def makeDistortionCurve_length createDistortionNode_def)
qed

theorem distortion_curve_and_gains_witness:
  "(22050::nat) < 44100 \<and> makeDistortionCurve 50 ! 22050 = 0 \<and>
   (\<exists>d. createDistortionNode (Some (Some 50, Some 30)) = Some d \<and>
        wetGain_value d = 3 / 10 \<and> dryGain_value d = 7 / 10 \<and> outputGain_value d = 3 / 4)"
proof -
  have i: "(22050::nat) < 44100" by simp
  from distortion_curve_and_gains[OF i, of 50 30] show ?thesis
    by (auto simp: Let_def)
qed

text \<open>
  Claim C7. On a voice with one oscillator layer and one LFO, all releases 500 ms,
  \<open>stop\<close> makes the three release calls on the master gain and on the envelope gain
  of the layer, each ramp ending after the release time of its gain, and sets a timer
  of 600 ms, the longest release plus 100 ms, whose callback stops the oscillator and
  the LFO. A master release of 0 ms is read as missing and replaced by 500 ms. Neither
  \<open>stop\<close> nor the callback ever disconnects a node, for any voice.
\<close>

theorem stop_never_disconnects:
  "NoteInstance_stop 0 (\<lambda>g. 1) None stop_example =
     ([CancelScheduledValues 0 0, SetValueAtTime 0 1 0, LinearRampToValueAtTime 0 0 (1 / 2),
       CancelScheduledValues 2 0, SetValueAtTime 2 1 0, LinearRampToValueAtTime 2 0 (1 / 2)],
      600, [OscillatorStop 1, OscillatorStop 3]) \<and>
   LinearRampToValueAtTime 0 0 (1 / 2) \<in> set (fst (NoteInstance_stop 0 (\<lambda>g. 1) (Some 0) stop_example)) \<and>
   \<not> list_ex isDisconnect (fst (NoteInstance_stop now gainValue masterReleaseAttr v) @
                           snd (snd (NoteInstance_stop now gainValue masterReleaseAttr v)))"
proof (intro conjI)
  show "NoteInstance_stop 0 (\<lambda>g. 1) None stop_example =
     ([CancelScheduledValues 0 0, SetValueAtTime 0 1 0, LinearRampToValueAtTime 0 0 (1 / 2),
       CancelScheduledValues 2 0, SetValueAtTime 2 1 0, LinearRampToValueAtTime 2 0 (1 / 2)],
      600, [OscillatorStop 1, OscillatorStop 3])"
    by (simp add: NoteInstance_stop_def stop_example_def orDefault_def releaseCalls_def Let_def)
next
  show "LinearRampToValueAtTime 0 0 (1 / 2) \<in> set (fst (NoteInstance_stop 0 (\<lambda>g. 1) (Some 0) stop_example))"
    by (simp add: NoteInstance_stop_def stop_example_def orDefault_def releaseCalls_def Let_def)
next
  show "\<not> list_ex isDisconnect (fst (NoteInstance_stop now gainValue masterReleaseAttr v) @
                           snd (snd (NoteInstance_stop now gainValue masterReleaseAttr v)))"
    by (auto simp: NoteInstance_stop_def Let_def releaseCalls_def isDisconnect_def list_ex_iff)
qed

end
